theory Spec2Isabelle
  imports Main "HOL-Library.Word"
begin

unbundle bit_operations_syntax

section \<open>The IAP tunnel client: wire constants and framing\<close>

text \<open>
  The development follows the tunnel client of package \<open>iap\<close>: the constants and frame
  builders, the connection state \<open>Conn\<close>, the reader side (\<open>readFrame\<close> and the decoders
  it dispatches to, driven by \<open>read\<close>) and the writer side (\<open>writeFrame\<close>, driven by
  \<open>write\<close>, fed by \<open>Conn.Write\<close>). The two loops and the application run concurrently in
  the program; here each step of a loop is a function on the state, and what a blocked
  call waits for is part of the state.
\<close>

type_synonym byte = "8 word"

definition subprotoMaxFrameSize :: nat where
  "subprotoMaxFrameSize = 16384"

definition subprotoAckThreshold :: nat where
  "subprotoAckThreshold = 2 * subprotoMaxFrameSize"

definition subprotoTagSuccess :: "16 word" where
  "subprotoTagSuccess = 0x1"

definition subprotoTagData :: "16 word" where
  "subprotoTagData = 0x4"

definition subprotoTagAck :: "16 word" where
  "subprotoTagAck = 0x7"

definition MaxUint32 :: nat where
  "MaxUint32 = 4294967295"

subsection \<open>Big-endian integers (Go's \<open>encoding/binary\<close>)\<close>

text \<open>
  \<open>binary.BigEndian.PutUintN\<close> stores the most significant byte first; \<open>UintN\<close> reads the
  bytes back with shifts and ors. The byte lists stand for Go slices of the right length.
\<close>

definition PutUint16 :: "16 word \<Rightarrow> byte list" where
  "PutUint16 v = [ucast (drop_bit 8 v), ucast v]"

definition PutUint32 :: "32 word \<Rightarrow> byte list" where
  "PutUint32 v = [ucast (drop_bit 24 v), ucast (drop_bit 16 v), ucast (drop_bit 8 v), ucast v]"

definition PutUint64 :: "64 word \<Rightarrow> byte list" where
  "PutUint64 v = [ucast (drop_bit 56 v), ucast (drop_bit 48 v), ucast (drop_bit 40 v),
     ucast (drop_bit 32 v), ucast (drop_bit 24 v), ucast (drop_bit 16 v),
     ucast (drop_bit 8 v), ucast v]"

definition Uint16 :: "byte list \<Rightarrow> 16 word" where
  "Uint16 b = ucast (b ! 1) OR push_bit 8 (ucast (b ! 0))"

definition Uint32 :: "byte list \<Rightarrow> 32 word" where
  "Uint32 b = ucast (b ! 3) OR push_bit 8 (ucast (b ! 2)) OR push_bit 16 (ucast (b ! 1))
     OR push_bit 24 (ucast (b ! 0))"

definition Uint64 :: "byte list \<Rightarrow> 64 word" where
  "Uint64 b = ucast (b ! 7) OR push_bit 8 (ucast (b ! 6)) OR push_bit 16 (ucast (b ! 5))
     OR push_bit 24 (ucast (b ! 4)) OR push_bit 32 (ucast (b ! 3)) OR push_bit 40 (ucast (b ! 2))
     OR push_bit 48 (ucast (b ! 1)) OR push_bit 56 (ucast (b ! 0))"

subsection \<open>Frame builders\<close>

text \<open>
  \<open>makeAckFrame\<close> and \<open>makeDataFrame\<close>. A Go panic is the \<open>Inl\<close> branch, carrying the
  panic message.
\<close>

definition makeAckFrame :: "64 word \<Rightarrow> byte list" where
  "makeAckFrame nb = PutUint16 subprotoTagAck @ PutUint64 nb"

definition makeDataFrame :: "byte list \<Rightarrow> string + byte list" where
  "makeDataFrame data =
     (if length data + 6 > MaxUint32 then Inl ''data too large for frame''
      else Inr (PutUint16 subprotoTagData @ PutUint32 (word_of_nat (length data)) @ data))"

section \<open>Errors, the transport and the pipes\<close>

text \<open>
  Modelled from the spec: the declarations of \<open>ProtocolError\<close> and \<open>CloseError\<close> are not
  among the source files; the specification gives them as \<open>ProtocolError(message)\<close> and
  \<open>CloseError(code, reason)\<close>. The other error values the loops see are \<open>io.EOF\<close>,
  \<open>io.ErrClosedPipe\<close>, the transport's \<open>websocket.CloseError\<close> (a code and a reason),
  and any other transport error.
\<close>

datatype error =
    EOF
  | ErrClosedPipe
  | ProtocolError string
  | CloseError int string
  | WsCloseError int string
  | IOError string

text \<open>
  The transport \<open>c.conn\<close> is a \<open>net.Conn\<close> over binary messages. Its state: the chunks the
  peer has sent and the client has not read yet (\<open>inbound\<close>, one chunk per \<open>Read\<close> at
  most), the error \<open>Read\<close> returns once they are used up (\<open>inbound_end\<close>), the buffers
  written so far, one per \<open>Write\<close> call (\<open>outbound\<close>), and the outcome of the \<open>k\<close>-th
  \<open>Write\<close> (\<open>wfail k\<close>, \<open>None\<close> when the transport accepts it).
\<close>

record transport =
  inbound :: "byte list list"
  inbound_end :: error
  outbound :: "byte list list"
  wfail :: "nat \<Rightarrow> error option"

text \<open>
  \<open>Read(p)\<close> with \<open>len(p) = n\<close>: at most \<open>n\<close> bytes, all from the chunk at the head; a
  short read when the chunk is shorter than \<open>p\<close>, and no bytes when \<open>p\<close> or the chunk
  is empty. The result lists the bytes read.
\<close>

definition conn_Read :: "nat \<Rightarrow> transport \<Rightarrow> (error + byte list) \<times> transport" where
  "conn_Read n t =
     (case inbound t of
        [] \<Rightarrow> (Inl (inbound_end t), t)
      | ch # rest \<Rightarrow>
          (Inr (take n ch),
           t\<lparr>inbound := (if length ch \<le> n then rest else drop n ch # rest)\<rparr>))"

definition conn_Write :: "byte list \<Rightarrow> transport \<Rightarrow> error option \<times> transport" where
  "conn_Write b t =
     (case wfail t (length (outbound t)) of
        Some e \<Rightarrow> (Some e, t)
      | None \<Rightarrow> (None, t\<lparr>outbound := outbound t @ [b]\<rparr>))"

text \<open>
  A Go buffer of \<open>n\<close> zero bytes after a \<open>Read\<close> that stored \<open>bs\<close> at its start (the
  callers ignore the byte count \<open>Read\<close> returns and use the whole buffer).
\<close>

definition pad :: "nat \<Rightarrow> byte list \<Rightarrow> byte list" where
  "pad n bs = take n (bs @ replicate n 0)"

section \<open>The connection state\<close>

text \<open>
  \<open>Conn\<close>, with the two \<open>io.Pipe\<close>s made explicit.
  \<^item> \<open>recvPipe\<close>: the bytes written into \<open>recvWriter\<close>, in order (what the application's
    \<open>Read\<close> yields); \<open>recvWriter_err\<close>: the error \<open>recvWriter\<close> was closed with.
  \<^item> \<open>sendPipe\<close>: the buffers offered to \<open>sendWriter.Write\<close> and not read completely yet,
    oldest first (a \<open>Write\<close> returns when its buffer has left this queue);
    \<open>sendWriter_err\<close>: the error \<open>sendWriter\<close> was closed with.
  \<open>recvBuf\<close> and \<open>sendBuf\<close> are scratch buffers of \<open>subprotoMaxFrameSize\<close> bytes; only
  the length of \<open>recvBuf\<close> matters and it never changes.
\<close>

record Conn =
  conn :: transport
  connected :: bool
  sessionID :: "byte list"
  recvNbAcked :: "64 word"
  recvNbUnacked :: "64 word"
  recvPipe :: "byte list"
  recvWriter_err :: "error option"
  sendNbAcked :: "64 word"
  sendPipe :: "byte list list"
  sendWriter_err :: "error option"

definition newConn :: "transport \<Rightarrow> Conn" where
  "newConn netConn =
     \<lparr>conn = netConn, connected = False, sessionID = [],
      recvNbAcked = 0, recvNbUnacked = 0, recvPipe = [], recvWriter_err = None,
      sendNbAcked = 0, sendPipe = [], sendWriter_err = None\<rparr>"

text \<open>
  \<open>PipeWriter.CloseWithError\<close> keeps the first error it was given; \<open>closeWriters\<close>
  closes both write ends.
\<close>

definition CloseWithError :: "error \<Rightarrow> error option \<Rightarrow> error option" where
  "CloseWithError err w = (case w of None \<Rightarrow> Some err | Some e0 \<Rightarrow> Some e0)"

definition closeWriters :: "error \<Rightarrow> Conn \<Rightarrow> Conn" where
  "closeWriters err c =
     c\<lparr>sendWriter_err := CloseWithError err (sendWriter_err c),
       recvWriter_err := CloseWithError err (recvWriter_err c)\<rparr>"

text \<open>
  \<open>recvWriter.Write(b)\<close> for a non-empty \<open>b\<close>: fails with \<open>io.ErrClosedPipe\<close> on a closed
  pipe, otherwise hands \<open>b\<close> to the application (which is taken to keep reading).
\<close>

definition recvWriter_Write :: "byte list \<Rightarrow> Conn \<Rightarrow> error option \<times> Conn" where
  "recvWriter_Write b c =
     (case recvWriter_err c of
        Some e \<Rightarrow> (Some ErrClosedPipe, c)
      | None \<Rightarrow> (None, c\<lparr>recvPipe := recvPipe c @ b\<rparr>))"

section \<open>The reader side\<close>

text \<open>
  \<open>copyNBuffer(w, r, n, buf)\<close> is \<open>io.CopyBuffer(w, io.LimitReader(r, n), buf)\<close>, here with
  \<open>w = c.recvWriter\<close>, \<open>r = c.conn\<close> and \<open>len(buf) = subprotoMaxFrameSize\<close>. The limited
  reader asks the transport for \<open>min(len(buf), N)\<close> bytes while \<open>N > 0\<close> bytes remain and
  reports \<open>io.EOF\<close> when \<open>N = 0\<close>; \<open>CopyBuffer\<close> writes what each read returned, stops at
  the first error, and returns no error when that error is \<open>io.EOF\<close>. The result is the
  number of bytes written and the error.
\<close>

function copyBuffer_loop :: "nat \<Rightarrow> nat \<Rightarrow> Conn \<Rightarrow> (nat \<times> error option) \<times> Conn" where
  "copyBuffer_loop N written c =
     (if N = 0 then ((written, None), c)
      else
        (case conn_Read (min subprotoMaxFrameSize N) (conn c) of
           (Inl er, t) \<Rightarrow> ((written, if er = EOF then None else Some er), c\<lparr>conn := t\<rparr>)
         | (Inr bs, t) \<Rightarrow>
             if bs = [] then copyBuffer_loop N written (c\<lparr>conn := t\<rparr>)
             else
               (case recvWriter_Write bs (c\<lparr>conn := t\<rparr>) of
                  (Some ew, c') \<Rightarrow> ((written, Some ew), c')
                | (None, c') \<Rightarrow> copyBuffer_loop (N - length bs) (written + length bs) c')))"
  by pat_completeness auto
termination
  by (relation "measure (\<lambda>(N, written, c). N + length (inbound (conn c)))")
    (auto simp: conn_Read_def recvWriter_Write_def subprotoMaxFrameSize_def
      split: list.splits if_splits option.splits)

definition copyNBuffer :: "nat \<Rightarrow> Conn \<Rightarrow> (nat \<times> error option) \<times> Conn" where
  "copyNBuffer n c = copyBuffer_loop n 0 c"

definition readSuccessFrame :: "Conn \<Rightarrow> error option \<times> Conn" where
  "readSuccessFrame c =
     (case conn_Read 4 (conn c) of
        (Inl e, t) \<Rightarrow> (Some e, c\<lparr>conn := t\<rparr>)
      | (Inr bs, t) \<Rightarrow>
          (let len = Uint32 (pad 4 bs) in
           if subprotoMaxFrameSize < unat len
           then (Some (ProtocolError ''len exceeds subprotocol max data frame size''),
                 c\<lparr>conn := t\<rparr>)
           else
             (case conn_Read (unat len) t of
                (Inl e, t') \<Rightarrow>
                  (Some e, c\<lparr>conn := t', sessionID := replicate (unat len) 0\<rparr>)
              | (Inr sid, t') \<Rightarrow>
                  (None, c\<lparr>conn := t', sessionID := pad (unat len) sid,
                            connected := True\<rparr>))))"

definition writeAck :: "64 word \<Rightarrow> Conn \<Rightarrow> error option \<times> Conn" where
  "writeAck nb c =
     (case conn_Write (makeAckFrame nb) (conn c) of (err, t) \<Rightarrow> (err, c\<lparr>conn := t\<rparr>))"

definition readAckFrame :: "Conn \<Rightarrow> error option \<times> Conn" where
  "readAckFrame c =
     (case conn_Read 8 (conn c) of
        (Inl e, t) \<Rightarrow> (Some e, c\<lparr>conn := t\<rparr>)
      | (Inr bs, t) \<Rightarrow> (None, c\<lparr>conn := t, sendNbAcked := Uint64 (pad 8 bs)\<rparr>))"

definition readDataFrame :: "Conn \<Rightarrow> error option \<times> Conn" where
  "readDataFrame c =
     (case conn_Read 4 (conn c) of
        (Inl e, t) \<Rightarrow> (Some e, c\<lparr>conn := t\<rparr>)
      | (Inr bs, t) \<Rightarrow>
          (let len = Uint32 (pad 4 bs) in
           if subprotoMaxFrameSize < unat len
           then (Some (ProtocolError ''len exceeds subprotocol max data frame size''),
                 c\<lparr>conn := t\<rparr>)
           else
             (case copyNBuffer (unat len) (c\<lparr>conn := t\<rparr>) of
                ((n, Some e), c') \<Rightarrow> (Some e, c')
              | ((n, None), c') \<Rightarrow>
                  (None, c'\<lparr>recvNbUnacked := recvNbUnacked c' + ucast len\<rparr>))))"

definition readFrame :: "Conn \<Rightarrow> error option \<times> Conn" where
  "readFrame c =
     (case conn_Read 2 (conn c) of
        (Inl e, t) \<Rightarrow> (Some e, c\<lparr>conn := t\<rparr>)
      | (Inr bs, t) \<Rightarrow>
          (let tag = Uint16 (pad 2 bs); c1 = c\<lparr>conn := t\<rparr> in
           if tag = subprotoTagSuccess then readSuccessFrame c1
           else if \<not> connected c1
           then (Some (ProtocolError ''expected success frame but not did receive one''), c1)
           else if tag = subprotoTagAck then readAckFrame c1
           else if tag = subprotoTagData then
             (case readDataFrame c1 of
                (err, c2) \<Rightarrow>
                  if subprotoAckThreshold < unat (recvNbUnacked c2 - recvNbAcked c2)
                  then
                    (case writeAck (recvNbUnacked c2) c2 of
                       (Some e, c3) \<Rightarrow> (Some e, c3)
                     | (None, c3) \<Rightarrow> (err, c3\<lparr>recvNbAcked := recvNbUnacked c3\<rparr>))
                  else (err, c2))
           else (None, c1)))"

text \<open>
  The loops turn a \<open>websocket.CloseError\<close> into the package's \<open>CloseError\<close> before they
  close the pipes.
\<close>

fun asCloseError :: "error \<Rightarrow> error" where
  "asCloseError (WsCloseError code reason) = CloseError code reason"
| "asCloseError e = e"

text \<open>
  \<open>read\<close> calls \<open>readFrame\<close> until it fails, then closes both pipes with the error.
  Every successful \<open>readFrame\<close> takes at least one byte or one chunk off the transport,
  which \<open>tsize\<close> measures, so the loop is total on this transport.
\<close>

definition tsize :: "transport \<Rightarrow> nat" where
  "tsize t = sum_list (map (\<lambda>ch. Suc (length ch)) (inbound t))"

lemma conn_Read_tsize: "conn_Read n t = (r, t') \<Longrightarrow> tsize t' \<le> tsize t"
  by (auto simp: conn_Read_def tsize_def split: list.splits if_splits)

lemma conn_Read_tsize_less:
  "conn_Read n t = (Inr bs, t') \<Longrightarrow> 0 < n \<Longrightarrow> tsize t' < tsize t"
  by (auto simp: conn_Read_def tsize_def split: list.splits if_splits)

lemma copyBuffer_loop_tsize:
  "tsize (conn (snd (copyBuffer_loop N w c))) \<le> tsize (conn c)"
proof (induction N w c rule: copyBuffer_loop.induct)
  case (1 N written c)
  show ?case
  proof (cases "N = 0")
    case True
    then show ?thesis by simp
  next
    case False
    obtain r t where rd: "conn_Read (min subprotoMaxFrameSize N) (conn c) = (r, t)"
      by (cases "conn_Read (min subprotoMaxFrameSize N) (conn c)")
    have le: "tsize t \<le> tsize (conn c)"
      using rd by (rule conn_Read_tsize)
    show ?thesis
    proof (cases r)
      case (Inl er)
      with False rd le show ?thesis by simp
    next
      case (Inr bs)
      show ?thesis
      proof (cases "bs = []")
        case True
        with "1.IH"(1) [OF False rd [symmetric, unfolded Inr] refl True] False rd Inr le
        show ?thesis by simp
      next
        case nonempty: False
        show ?thesis
        proof (cases "recvWriter_err c")
          case None
          then have w: "recvWriter_Write bs (c\<lparr>conn := t\<rparr>)
              = (None, c\<lparr>conn := t, recvPipe := recvPipe c @ bs\<rparr>)"
            by (simp add: recvWriter_Write_def)
          from "1.IH"(2) [OF False rd [symmetric, unfolded Inr] refl nonempty w [symmetric] refl]
          show ?thesis using False rd Inr nonempty w le by simp
        next
          case (Some e)
          then show ?thesis using False rd Inr nonempty le
            by (simp add: recvWriter_Write_def)
        qed
      qed
    qed
  qed
qed

lemma readSuccessFrame_tsize: "tsize (conn (snd (readSuccessFrame c))) \<le> tsize (conn c)"
  by (auto simp: readSuccessFrame_def Let_def split: prod.splits sum.splits
      dest!: conn_Read_tsize)

lemma readAckFrame_tsize: "tsize (conn (snd (readAckFrame c))) \<le> tsize (conn c)"
  by (auto simp: readAckFrame_def split: prod.splits sum.splits dest!: conn_Read_tsize)

lemma readDataFrame_tsize: "tsize (conn (snd (readDataFrame c))) \<le> tsize (conn c)"
proof -
  obtain r t where rd: "conn_Read 4 (conn c) = (r, t)"
    by (cases "conn_Read 4 (conn c)")
  have le: "tsize t \<le> tsize (conn c)"
    using rd by (rule conn_Read_tsize)
  have cp: "tsize (conn (snd (copyNBuffer n (c\<lparr>conn := t\<rparr>)))) \<le> tsize t" for n
    using copyBuffer_loop_tsize [of n 0 "c\<lparr>conn := t\<rparr>"] by (simp add: copyNBuffer_def)
  show ?thesis
  proof (cases r)
    case (Inl e)
    with rd le show ?thesis by (simp add: readDataFrame_def)
  next
    case (Inr bs)
    obtain n err c' where k: "copyNBuffer (unat (Uint32 (pad 4 bs))) (c\<lparr>conn := t\<rparr>)
        = ((n, err), c')"
      by (metis surj_pair)
    then have "tsize (conn c') \<le> tsize t"
      using cp [of "unat (Uint32 (pad 4 bs))"] by simp
    with rd Inr le k show ?thesis
      by (cases err) (simp_all add: readDataFrame_def Let_def)
  qed
qed

lemma writeAck_tsize: "tsize (conn (snd (writeAck nb c))) = tsize (conn c)"
  by (auto simp: writeAck_def conn_Write_def tsize_def split: option.splits)

lemma readFrame_tsize:
  assumes "readFrame c = (None, c')"
  shows "tsize (conn c') < tsize (conn c)"
proof -
  obtain r t where rd: "conn_Read 2 (conn c) = (r, t)"
    by (cases "conn_Read 2 (conn c)")
  from assms rd obtain bs where r: "r = Inr bs"
    by (cases r) (auto simp: readFrame_def)
  have less: "tsize t < tsize (conn c)"
    using rd r conn_Read_tsize_less by fastforce
  have s: "tsize (conn (snd (readSuccessFrame (c\<lparr>conn := t\<rparr>)))) \<le> tsize t"
    using readSuccessFrame_tsize [of "c\<lparr>conn := t\<rparr>"] by simp
  have a: "tsize (conn (snd (readAckFrame (c\<lparr>conn := t\<rparr>)))) \<le> tsize t"
    using readAckFrame_tsize [of "c\<lparr>conn := t\<rparr>"] by simp
  have d: "tsize (conn (snd (readDataFrame (c\<lparr>conn := t\<rparr>)))) \<le> tsize t"
    using readDataFrame_tsize [of "c\<lparr>conn := t\<rparr>"] by simp
  have w: "tsize (conn (snd (writeAck nb c2))) = tsize (conn c2)" for nb c2
    by (rule writeAck_tsize)
  have "tsize (conn c') \<le> tsize t"
    using assms rd r s a d
    by (auto simp: readFrame_def Let_def split: if_splits prod.splits option.splits)
      (metis w snd_conv)+
  with less show ?thesis by simp
qed

function read :: "Conn \<Rightarrow> Conn" where
  "read c =
     (case readFrame c of
        (Some err, c') \<Rightarrow> closeWriters (asCloseError err) c'
      | (None, c') \<Rightarrow> read c')"
  by pat_completeness auto
termination
  by (relation "measure (\<lambda>c. tsize (conn c))") (auto dest: readFrame_tsize [OF sym])

section \<open>The writer side\<close>

text \<open>
  The send pipe is an \<open>io.Pipe\<close>: it has no buffer, a \<open>Write\<close> offers its bytes to the
  reads of the other end and returns when they have taken all of them, and it offers
  them at least once, so that a \<open>Write\<close> of no bytes also waits for one read (the loop
  of \<open>io.Pipe\<close>'s write is \<open>for once := true; once || len(b) > 0; once = false\<close>).

  \<open>sendReader.Read(p)\<close> with \<open>len(p) = k\<close>: fails with the error the pipe was closed
  with; otherwise takes up to \<open>k\<close> bytes from the buffer of the oldest pending
  \<open>sendWriter.Write\<close>, which returns once its buffer is used up (an empty buffer is used
  up by the first read, which then gets no bytes); with no write pending the read
  waits (\<open>Wait\<close>).
\<close>

datatype 'a attempt = Got 'a | Fail error | Wait

definition sendReader_Read :: "nat \<Rightarrow> Conn \<Rightarrow> byte list attempt \<times> Conn" where
  "sendReader_Read k c =
     (case sendWriter_err c of
        Some e \<Rightarrow> (Fail e, c)
      | None \<Rightarrow>
          (case sendPipe c of
             [] \<Rightarrow> (Wait, c)
           | b # rest \<Rightarrow>
               (Got (take k b),
                c\<lparr>sendPipe := (if length b \<le> k then rest else drop k b # rest)\<rparr>)))"

text \<open>
  How a pass of the writer ends: \<open>Ok\<close> is a \<open>nil\<close> error, \<open>Err\<close> an error, \<open>Blocked\<close>
  a read of the send pipe that waits for a writer, \<open>Panicked\<close> a Go panic.
\<close>

datatype status = Ok | Err error | Blocked | Panicked string

text \<open>The \<open>for nb > 0\<close> loop of \<open>writeFrame\<close>.\<close>

function writeFrame_loop :: "nat \<Rightarrow> Conn \<Rightarrow> status \<times> Conn" where
  "writeFrame_loop nb c =
     (if 0 < nb then
        (case sendReader_Read (min nb subprotoMaxFrameSize) c of
           (Fail e, c1) \<Rightarrow> (Err e, c1)
         | (Wait, c1) \<Rightarrow> (Blocked, c1)
         | (Got bs, c1) \<Rightarrow>
             (case makeDataFrame (pad (min nb subprotoMaxFrameSize) bs) of
                Inl msg \<Rightarrow> (Panicked msg, c1)
              | Inr frame \<Rightarrow>
                  (case conn_Write frame (conn c1) of
                     (Some e, t) \<Rightarrow> (Err e, c1\<lparr>conn := t\<rparr>)
                   | (None, t) \<Rightarrow>
                       writeFrame_loop (nb - min nb subprotoMaxFrameSize) (c1\<lparr>conn := t\<rparr>))))
      else (Ok, c))"
  by pat_completeness auto
termination
  by (relation "measure (\<lambda>(nb, c). nb)") (auto simp: subprotoMaxFrameSize_def)

text \<open>
  \<open>writeFrame\<close>, given what the receive on \<open>sendNbCh\<close> yields: \<open>Some nb\<close> for an
  announcement, \<open>None\<close> for the closed channel.
\<close>

definition writeFrame :: "nat option \<Rightarrow> Conn \<Rightarrow> status \<times> Conn" where
  "writeFrame ann c =
     (case ann of
        None \<Rightarrow> (Err EOF, c)
      | Some nb \<Rightarrow> writeFrame_loop nb c)"

text \<open>One pass of the loop of \<open>write\<close>: an error closes both pipes and ends the loop.\<close>

definition write_pass :: "nat option \<Rightarrow> Conn \<Rightarrow> status \<times> Conn" where
  "write_pass ann c =
     (case writeFrame ann c of
        (Err err, c') \<Rightarrow> (Err (asCloseError err), closeWriters (asCloseError err) c')
      | (st, c') \<Rightarrow> (st, c'))"

text \<open>
  \<open>Conn.Write(buf)\<close> on a tunnel whose writer loop waits at \<open>sendNbCh\<close>. The channel has
  no buffer, so the send of \<open>len(buf)\<close> completes when \<open>writeFrame\<close> receives it; then
  \<open>sendWriter.Write(buf)\<close> offers \<open>buf\<close> to the send pipe (or fails at once on a closed
  pipe) while the writer runs its pass. The result is what \<open>Write\<close> has returned when
  the writer is back at the channel (or has stopped): \<open>Returned n err\<close>, or \<open>Pending\<close>
  when \<open>sendWriter.Write\<close> still waits for a reader.
\<close>

datatype write_result = Returned nat "error option" | Pending

definition Conn_Write :: "byte list \<Rightarrow> Conn \<Rightarrow> write_result \<times> status \<times> Conn" where
  "Conn_Write buf c =
     (let c1 = (if sendWriter_err c = None then c\<lparr>sendPipe := sendPipe c @ [buf]\<rparr> else c);
          (st, c2) = write_pass (Some (length buf)) c1
      in ((if sendWriter_err c \<noteq> None then Returned 0 (Some ErrClosedPipe)
           else if sendPipe c2 = [] then Returned (length buf) None
           else if sendWriter_err c2 \<noteq> None
           then Returned (length buf - length (last (sendPipe c2))) (Some ErrClosedPipe)
           else Pending),
          st, c2))"

section \<open>Chunks of a buffer\<close>

text \<open>
  The specification's side of the write chunking: the consecutive pieces of at most \<open>k\<close>
  elements of a list, \<open>\<lceil>N/k\<rceil>\<close> of them for a list of \<open>N\<close> elements. They are the payloads
  the specification expects in the DATA frames of one write; the theorems compare them
  with what \<open>writeFrame\<close> sends.
\<close>

definition spec_chunks :: "nat \<Rightarrow> 'a list \<Rightarrow> 'a list list" where
  "spec_chunks k xs = map (\<lambda>i. take k (drop (i * k) xs)) [0 ..< (length xs + k - 1) div k]"

text \<open>
  A transport for the examples: the given chunks to read, the given error after them,
  nothing written yet and every write accepted.
\<close>

definition idle_transport :: "byte list list \<Rightarrow> error \<Rightarrow> transport" where
  "idle_transport chs e = \<lparr>inbound = chs, inbound_end = e, outbound = [], wfail = (\<lambda>k. None)\<rparr>"

text \<open>
  The decoders do not read past the declared length: \<open>copyNBuffer\<close> takes at most \<open>n\<close> bytes
  off the transport (\<open>tbytes\<close> counts the bytes not read yet), and what it takes goes to
  the receive pipe as long as the pipe is open.
\<close>

definition tbytes :: "transport \<Rightarrow> nat" where
  "tbytes t = sum_list (map length (inbound t))"

section \<open>Basic facts: encodings, frames and chunks\<close>

declare writeFrame_loop.simps [simp del]

declare read.simps [simp del]

declare copyBuffer_loop.simps [simp del]

lemma Uint32_PutUint32: "Uint32 (PutUint32 v) = v"
proof (rule bit_word_eqI)
  fix n assume "n < LENGTH(32)"
  then have n: "n < 32" by simp
  consider "n < 8" | "8 \<le> n" "n < 16" | "16 \<le> n" "n < 24" | "24 \<le> n" "n < 32"
    using n by linarith
  then show "bit (Uint32 (PutUint32 v)) n = bit v n"
    by cases (auto simp add: Uint32_def PutUint32_def bit_simps)
qed

lemma tag_bytes:
  "Uint16 (pad 2 [0, 1]) = subprotoTagSuccess" "Uint16 (pad 2 [0, 4]) = subprotoTagData"
  "Uint16 (pad 2 [0, 7]) = subprotoTagAck"
  by (simp_all add: Uint16_def pad_def subprotoTagSuccess_def subprotoTagData_def
      subprotoTagAck_def)

lemma tags_distinct:
  "subprotoTagData \<noteq> subprotoTagSuccess" "subprotoTagData \<noteq> subprotoTagAck"
  "subprotoTagAck \<noteq> subprotoTagSuccess"
  by (simp_all add: subprotoTagData_def subprotoTagSuccess_def subprotoTagAck_def)

lemma length_pad: "length (pad n bs) = n"
  by (simp add: pad_def)

lemma pad_full: "length bs = n \<Longrightarrow> pad n bs = bs"
  by (simp add: pad_def)

lemma makeDataFrame_small:
  "length p \<le> subprotoMaxFrameSize \<Longrightarrow>
   makeDataFrame p = Inr (PutUint16 subprotoTagData @ PutUint32 (word_of_nat (length p)) @ p)"
  by (simp add: makeDataFrame_def subprotoMaxFrameSize_def MaxUint32_def)

lemma dataFrame_parts:
  assumes "length p \<le> subprotoMaxFrameSize" "makeDataFrame p = Inr f"
  shows "take 2 f = [0, 4] \<and> drop 6 f = p
     \<and> unat (Uint32 (take 4 (drop 2 f))) = length p"
proof -
  have f: "f = PutUint16 subprotoTagData @ PutUint32 (word_of_nat (length p)) @ p"
    using makeDataFrame_small [OF assms(1)] assms(2) by simp
  have t: "PutUint16 subprotoTagData = [0, 4]"
    by (simp add: PutUint16_def subprotoTagData_def)
  have l: "length (PutUint32 (word_of_nat (length p))) = 4"
    by (simp add: PutUint32_def)
  have "length p < 2 ^ 32"
    using assms(1) by (simp add: subprotoMaxFrameSize_def)
  then have u: "unat (Uint32 (PutUint32 (word_of_nat (length p)))) = length p"
    by (simp add: Uint32_PutUint32 unat_of_nat)
  show ?thesis
    using u l by (simp add: f t)
qed

lemma frames_payloads:
  "map Inr fs = map makeDataFrame ps \<Longrightarrow> \<forall>p\<in>set ps. length p \<le> subprotoMaxFrameSize \<Longrightarrow>
   map (drop 6) fs = ps
   \<and> (\<forall>f\<in>set fs. take 2 f = [0, 4] \<and> length (drop 6 f) \<le> subprotoMaxFrameSize
         \<and> unat (Uint32 (take 4 (drop 2 f))) = length (drop 6 f))"
proof (induction ps arbitrary: fs)
  case Nil
  then show ?case by simp
next
  case (Cons p ps)
  then obtain f fs' where fs: "fs = f # fs'" "makeDataFrame p = Inr f"
      "map Inr fs' = map makeDataFrame ps"
    by (cases fs) auto
  have lp: "length p \<le> subprotoMaxFrameSize"
    using Cons.prems(2) by simp
  from dataFrame_parts [OF lp fs(2)] Cons.IH [OF fs(3)] Cons.prems(2) lp
  show ?case by (simp add: fs(1) del: length_drop)
qed

lemma cnt_aux:
  assumes "0 < k" "0 < (n::nat)"
  shows "(n + k - 1) div k = Suc ((n - k + k - 1) div k)"
proof -
  have eq: "n + k - 1 = (n - 1) + k" using assms by arith
  have "(n + k - 1) div k = ((n - 1) + k) div k"
    by (simp only: eq)
  also have "\<dots> = (n - 1) div k + 1"
    using assms(1) by (intro div_add_self2) simp
  also have "\<dots> = Suc ((n - 1) div k)"
    by simp
  finally have c1: "(n + k - 1) div k = Suc ((n - 1) div k)" .
  have c2: "(n - k + k - 1) div k = (n - 1) div k"
  proof (cases "k \<le> n")
    case True
    then have "n - k + k - 1 = n - 1" by arith
    then show ?thesis by (simp only:)
  next
    case False
    then have e: "n - k + k - 1 = k - 1" and l: "n - 1 < k" by arith+
    have "(k - 1) div k = 0" using assms(1) by simp
    moreover have "(n - 1) div k = 0" using l by simp
    ultimately show ?thesis by (simp only: e)
  qed
  show ?thesis
    by (simp only: c1 c2)
qed

lemma upt_Suc_shift: "[0 ..< Suc m] = 0 # map Suc [0 ..< m]"
  unfolding map_Suc_upt by (rule upt_conv_Cons) simp

lemma chunks_Nil: "spec_chunks k [] = []"
proof -
  have "(k - 1) div k = 0"
    by (cases "k = 0") simp_all
  then show ?thesis
    by (simp add: spec_chunks_def)
qed

lemma chunks_rec:
  assumes "0 < k" "xs \<noteq> []"
  shows "spec_chunks k xs = take k xs # spec_chunks k (drop k xs)"
proof -
  have n: "0 < length xs" using assms(2) by simp
  have sh: "drop (Suc i * k) xs = drop (i * k) (drop k xs)" for i
    by (simp add: add.commute)
  have "spec_chunks k xs
      = map (\<lambda>i. take k (drop (i * k) xs)) [0 ..< Suc ((length xs - k + k - 1) div k)]"
    unfolding spec_chunks_def by (simp only: cnt_aux [OF assms(1) n])
  also have "\<dots> = take k (drop (0 * k) xs)
      # map (\<lambda>i. take k (drop (Suc i * k) xs)) [0 ..< (length xs - k + k - 1) div k]"
    by (simp only: upt_Suc_shift list.map map_map o_def)
  also have "\<dots> = take k xs # spec_chunks k (drop k xs)"
    by (simp only: sh spec_chunks_def length_drop mult_0 drop_0)
  finally show ?thesis .
qed

lemma concat_chunks: "0 < k \<Longrightarrow> concat (spec_chunks k xs) = xs"
proof (induction "length xs" arbitrary: xs rule: less_induct)
  case less
  show ?case
  proof (cases "xs = []")
    case True
    then show ?thesis by (simp add: chunks_Nil)
  next
    case False
    then have "length (drop k xs) < length xs" using less.prems by simp
    from less.hyps [OF this less.prems] have "concat (spec_chunks k (drop k xs)) = drop k xs" .
    then show ?thesis
      by (simp add: chunks_rec [OF less.prems False])
  qed
qed

lemma length_chunks: "length (spec_chunks k xs) = (length xs + k - 1) div k"
  by (simp add: spec_chunks_def)

lemma chunk_le: "p \<in> set (spec_chunks k xs) \<Longrightarrow> length p \<le> k"
  by (auto simp: spec_chunks_def)

section \<open>Facts about the reader side\<close>

lemma read_continue: "readFrame c = (None, c') \<Longrightarrow> read c = read c'"
  by (subst read.simps) simp

lemma read_stop: "readFrame c = (Some e, c') \<Longrightarrow> read c = closeWriters (asCloseError e) c'"
  by (subst read.simps) simp

lemma handshake_gate:
  assumes "conn_Read 2 (conn c) = (Inr bs, t)" "Uint16 (pad 2 bs) \<noteq> subprotoTagSuccess"
    "\<not> connected c"
  shows "readFrame c
    = (Some (ProtocolError ''expected success frame but not did receive one''), c\<lparr>conn := t\<rparr>)"
  using assms by (simp add: readFrame_def)

lemma conn_Read_frame: "conn_Read n t = (r, t') \<Longrightarrow> \<exists>inb. t' = t\<lparr>inbound := inb\<rparr>"
  by (cases "inbound t") (auto simp: conn_Read_def intro: exI [of _ "inbound t"])

lemma copyBuffer_loop_frame:
  "\<exists>inb rp. snd (copyBuffer_loop N w c) = c\<lparr>conn := (conn c)\<lparr>inbound := inb\<rparr>, recvPipe := rp\<rparr>"
proof (induction N w c rule: copyBuffer_loop.induct)
  case (1 N written c)
  have I: "\<exists>inb rp. x = c\<lparr>conn := (conn c)\<lparr>inbound := inb\<rparr>, recvPipe := rp\<rparr>"
    if "x = c\<lparr>conn := (conn c)\<lparr>inbound := inb\<rparr>, recvPipe := rp\<rparr>" for x inb rp
    using that by blast
  show ?case
  proof (cases "N = 0")
    case True
    show ?thesis
      by (rule I [where inb = "inbound (conn c)" and rp = "recvPipe c"])
        (subst copyBuffer_loop.simps, simp add: True)
  next
    case False
    obtain r t where rd: "conn_Read (min subprotoMaxFrameSize N) (conn c) = (r, t)"
      by (cases "conn_Read (min subprotoMaxFrameSize N) (conn c)")
    from conn_Read_frame [OF rd] obtain inb where t: "t = (conn c)\<lparr>inbound := inb\<rparr>"
      by blast
    show ?thesis
    proof (cases r)
      case (Inl er)
      show ?thesis
        by (rule I [where inb = "inb" and rp = "recvPipe c"])
          (subst copyBuffer_loop.simps, simp add: False rd Inl t)
    next
      case (Inr bs)
      show ?thesis
      proof (cases "bs = []")
        case True
        from "1.IH"(1) [OF False rd [symmetric, unfolded Inr] refl True]
        obtain inb' rp' where "snd (copyBuffer_loop N written (c\<lparr>conn := t\<rparr>))
            = c\<lparr>conn := (conn c)\<lparr>inbound := inb'\<rparr>, recvPipe := rp'\<rparr>"
          by (auto simp: t)
        then show ?thesis
          by (intro I [where inb = "inb'" and rp = "rp'"])
            (subst copyBuffer_loop.simps, simp add: False rd Inr True)
      next
        case nonempty: False
        show ?thesis
        proof (cases "recvWriter_err c")
          case None
          then have w: "recvWriter_Write bs (c\<lparr>conn := t\<rparr>)
              = (None, c\<lparr>conn := t, recvPipe := recvPipe c @ bs\<rparr>)"
            by (simp add: recvWriter_Write_def)
          from "1.IH"(2) [OF False rd [symmetric, unfolded Inr] refl nonempty w [symmetric] refl]
          obtain inb' rp' where
            "snd (copyBuffer_loop (N - length bs) (written + length bs)
                (c\<lparr>conn := t, recvPipe := recvPipe c @ bs\<rparr>))
              = c\<lparr>conn := (conn c)\<lparr>inbound := inb'\<rparr>, recvPipe := rp'\<rparr>"
            by (auto simp: t)
          then show ?thesis
            by (intro I [where inb = "inb'" and rp = "rp'"])
              (subst copyBuffer_loop.simps, simp add: False rd Inr nonempty w)
        next
          case (Some e)
          then have w: "recvWriter_Write bs (c\<lparr>conn := t\<rparr>) = (Some ErrClosedPipe, c\<lparr>conn := t\<rparr>)"
            by (simp add: recvWriter_Write_def)
          show ?thesis
            by (rule I [where inb = "inb" and rp = "recvPipe c"])
              (subst copyBuffer_loop.simps, simp add: False rd Inr nonempty w [unfolded t] t)
        qed
      qed
    qed
  qed
qed

lemma readDataFrame_frame:
  "\<exists>inb rp un. snd (readDataFrame c)
      = c\<lparr>conn := (conn c)\<lparr>inbound := inb\<rparr>, recvPipe := rp, recvNbUnacked := un\<rparr>
    \<and> (un = recvNbUnacked c
        \<or> (\<exists>len :: 32 word. unat len \<le> subprotoMaxFrameSize \<and> un = recvNbUnacked c + ucast len))"
proof -
  have I: "\<exists>inb rp un. x = c\<lparr>conn := (conn c)\<lparr>inbound := inb\<rparr>, recvPipe := rp,
        recvNbUnacked := un\<rparr>
      \<and> (un = recvNbUnacked c
        \<or> (\<exists>len :: 32 word. unat len \<le> subprotoMaxFrameSize \<and> un = recvNbUnacked c + ucast len))"
    if "x = c\<lparr>conn := (conn c)\<lparr>inbound := inb\<rparr>, recvPipe := rp, recvNbUnacked := un\<rparr>"
      "un = recvNbUnacked c
        \<or> (\<exists>len :: 32 word. unat len \<le> subprotoMaxFrameSize \<and> un = recvNbUnacked c + ucast len)"
    for x inb rp un
    using that by blast
  obtain r t where rd: "conn_Read 4 (conn c) = (r, t)"
    by (cases "conn_Read 4 (conn c)")
  from conn_Read_frame [OF rd] obtain inb where t: "t = (conn c)\<lparr>inbound := inb\<rparr>"
    by blast
  show ?thesis
  proof (cases r)
    case (Inl e)
    show ?thesis
      by (rule I [where inb = "inb" and rp = "recvPipe c" and un = "recvNbUnacked c"])
        (simp_all add: readDataFrame_def rd Inl t)
  next
    case (Inr bs)
    define len where "len = Uint32 (pad 4 bs)"
    show ?thesis
    proof (cases "subprotoMaxFrameSize < unat len")
      case True
      show ?thesis
        by (rule I [where inb = "inb" and rp = "recvPipe c" and un = "recvNbUnacked c"])
          (simp_all add: readDataFrame_def rd Inr t len_def [symmetric] True)
    next
      case False
      obtain n err c' where k: "copyNBuffer (unat len) (c\<lparr>conn := t\<rparr>) = ((n, err), c')"
        by (metis surj_pair)
      from copyBuffer_loop_frame [of "unat len" 0 "c\<lparr>conn := t\<rparr>"] k
      obtain inb' rp' where c': "c' = c\<lparr>conn := (conn c)\<lparr>inbound := inb'\<rparr>, recvPipe := rp'\<rparr>"
        by (auto simp: copyNBuffer_def t)
      show ?thesis
      proof (cases err)
        case None
        have "snd (readDataFrame c) = c\<lparr>conn := (conn c)\<lparr>inbound := inb'\<rparr>, recvPipe := rp',
            recvNbUnacked := recvNbUnacked c + ucast len\<rparr>"
          using rd Inr False k None
          by (simp add: readDataFrame_def len_def [symmetric] c')
        moreover have "unat len \<le> subprotoMaxFrameSize"
          using False by simp
        ultimately show ?thesis
          by (intro I [where inb = "inb'" and rp = "rp'" and un = "recvNbUnacked c + ucast len"]) blast+
      next
        case (Some e)
        have "snd (readDataFrame c) = c\<lparr>conn := (conn c)\<lparr>inbound := inb'\<rparr>, recvPipe := rp',
            recvNbUnacked := recvNbUnacked c\<rparr>"
          using rd Inr False k Some
          by (simp add: readDataFrame_def len_def [symmetric] c')
        then show ?thesis
          by (intro I [where inb = "inb'" and rp = "rp'" and un = "recvNbUnacked c"]) simp_all
      qed
    qed
  qed
qed

lemma readSuccessFrame_counters:
  "recvNbAcked (snd (readSuccessFrame c)) = recvNbAcked c
   \<and> recvNbUnacked (snd (readSuccessFrame c)) = recvNbUnacked c
   \<and> sendNbAcked (snd (readSuccessFrame c)) = sendNbAcked c"
  by (auto simp: readSuccessFrame_def Let_def split: prod.splits sum.splits)

lemma readAckFrame_counters:
  "recvNbAcked (snd (readAckFrame c)) = recvNbAcked c
   \<and> recvNbUnacked (snd (readAckFrame c)) = recvNbUnacked c"
  by (auto simp: readAckFrame_def split: prod.splits sum.splits)

lemma writeAck_counters:
  "recvNbAcked (snd (writeAck nb c)) = recvNbAcked c
   \<and> recvNbUnacked (snd (writeAck nb c)) = recvNbUnacked c
   \<and> sendNbAcked (snd (writeAck nb c)) = sendNbAcked c"
  by (auto simp: writeAck_def split: prod.splits)

lemma readDataFrame_counters:
  "recvNbAcked (snd (readDataFrame c)) = recvNbAcked c
   \<and> sendNbAcked (snd (readDataFrame c)) = sendNbAcked c
   \<and> (recvNbUnacked (snd (readDataFrame c)) = recvNbUnacked c
      \<or> (\<exists>len :: 32 word. unat len \<le> subprotoMaxFrameSize
            \<and> recvNbUnacked (snd (readDataFrame c)) = recvNbUnacked c + ucast len))"
proof -
  from readDataFrame_frame [of c] obtain inb rp un where
    f: "snd (readDataFrame c)
      = c\<lparr>conn := (conn c)\<lparr>inbound := inb\<rparr>, recvPipe := rp, recvNbUnacked := un\<rparr>"
    and u: "un = recvNbUnacked c
        \<or> (\<exists>len :: 32 word. unat len \<le> subprotoMaxFrameSize \<and> un = recvNbUnacked c + ucast len)"
    by blast
  show ?thesis
    using u by (simp add: f)
qed

lemma readFrame_counters:
  "(recvNbUnacked (snd (readFrame c)) = recvNbUnacked c
      \<or> (\<exists>len :: 32 word. unat len \<le> subprotoMaxFrameSize
            \<and> recvNbUnacked (snd (readFrame c)) = recvNbUnacked c + ucast len))
   \<and> (recvNbAcked (snd (readFrame c)) = recvNbAcked c
      \<or> recvNbAcked (snd (readFrame c)) = recvNbUnacked (snd (readFrame c)))"
proof -
  obtain r t where rd: "conn_Read 2 (conn c) = (r, t)"
    by (cases "conn_Read 2 (conn c)")
  define c1 where "c1 = c\<lparr>conn := t\<rparr>"
  have c1: "recvNbUnacked c1 = recvNbUnacked c" "recvNbAcked c1 = recvNbAcked c"
    by (simp_all add: c1_def)
  show ?thesis
  proof (cases r)
    case (Inl e)
    with rd show ?thesis by (simp add: readFrame_def)
  next
    case (Inr bs)
    define tag where "tag = Uint16 (pad 2 bs)"
    consider (s) "tag = subprotoTagSuccess"
      | (g) "tag \<noteq> subprotoTagSuccess" "\<not> connected c"
      | (a) "tag \<noteq> subprotoTagSuccess" "connected c" "tag = subprotoTagAck"
      | (d) "tag \<noteq> subprotoTagSuccess" "connected c" "tag \<noteq> subprotoTagAck"
          "tag = subprotoTagData"
      | (u) "tag \<noteq> subprotoTagSuccess" "connected c" "tag \<noteq> subprotoTagAck"
          "tag \<noteq> subprotoTagData"
      by blast
    then show ?thesis
    proof cases
      case s
      then have "readFrame c = readSuccessFrame c1"
        using rd Inr by (simp add: readFrame_def tag_def c1_def)
      then show ?thesis
        using readSuccessFrame_counters [of c1] c1 by simp
    next
      case g
      then have "readFrame c
          = (Some (ProtocolError ''expected success frame but not did receive one''), c1)"
        using rd Inr by (simp add: readFrame_def tag_def c1_def)
      then show ?thesis
        using c1 by simp
    next
      case a
      then have "readFrame c = readAckFrame c1"
        using rd Inr by (simp add: readFrame_def tag_def c1_def)
      then show ?thesis
        using readAckFrame_counters [of c1] c1 by simp
    next
      case d
      obtain err c2 where dd: "readDataFrame c1 = (err, c2)"
        by (cases "readDataFrame c1")
      have c2: "recvNbAcked c2 = recvNbAcked c"
        "recvNbUnacked c2 = recvNbUnacked c
          \<or> (\<exists>len :: 32 word. unat len \<le> subprotoMaxFrameSize
                \<and> recvNbUnacked c2 = recvNbUnacked c + ucast len)"
        using readDataFrame_counters [of c1] dd c1 by simp_all
      obtain w c3 where ww: "writeAck (recvNbUnacked c2) c2 = (w, c3)"
        by (cases "writeAck (recvNbUnacked c2) c2")
      have c3: "recvNbAcked c3 = recvNbAcked c2" "recvNbUnacked c3 = recvNbUnacked c2"
        using writeAck_counters [of "recvNbUnacked c2" c2] ww by simp_all
      have "snd (readFrame c) = c2 \<or> snd (readFrame c) = c3
          \<or> snd (readFrame c) = c3\<lparr>recvNbAcked := recvNbUnacked c3\<rparr>"
        using rd Inr d dd ww
        by (cases w) (simp_all add: readFrame_def tag_def [symmetric] c1_def [symmetric])
      then show ?thesis
        using c2 c3 by auto
    next
      case u
      then have "readFrame c = (None, c1)"
        using rd Inr by (simp add: readFrame_def tag_def c1_def)
      then show ?thesis
        using c1 by simp
    qed
  qed
qed

lemma counter_add_mono:
  fixes u :: "64 word" and len :: "32 word"
  assumes "unat len \<le> subprotoMaxFrameSize" "unat u + subprotoMaxFrameSize < 2 ^ 64"
  shows "u \<le> u + ucast len"
proof -
  have l: "unat (ucast len :: 64 word) = unat len"
  proof -
    have "unat len < 2 ^ 64"
      using assms(1) by (simp add: subprotoMaxFrameSize_def)
    then show ?thesis
      by (simp add: unsigned_ucast_eq take_bit_nat_eq_self)
  qed
  have "unat u + unat (ucast len :: 64 word) < 2 ^ LENGTH(64)"
    using assms by (simp add: l)
  then have "unat (u + ucast len) = unat u + unat (ucast len :: 64 word)"
    using unat_add_lem [of u "ucast len"] by blast
  then show ?thesis
    by (simp add: word_le_nat_alt)
qed

lemma conn_Read_bytes:
  "conn_Read n t = (Inr bs, t') \<Longrightarrow> tbytes t = length bs + tbytes t' \<and> length bs \<le> n"
  by (auto simp: conn_Read_def tbytes_def split: list.splits if_splits)

lemma conn_Read_error: "conn_Read n t = (Inl e, t') \<Longrightarrow> t' = t"
  by (auto simp: conn_Read_def split: list.splits)

lemma copyBuffer_loop_bytes:
  "tbytes (conn c) \<le> N + tbytes (conn (snd (copyBuffer_loop N w c)))"
proof (induction N w c rule: copyBuffer_loop.induct)
  case (1 N written c)
  show ?case
  proof (cases "N = 0")
    case True
    then show ?thesis
      by (subst copyBuffer_loop.simps) simp
  next
    case False
    obtain r t where rd: "conn_Read (min subprotoMaxFrameSize N) (conn c) = (r, t)"
      by (cases "conn_Read (min subprotoMaxFrameSize N) (conn c)")
    show ?thesis
    proof (cases r)
      case (Inl er)
      with rd have "t = conn c" by (auto dest: conn_Read_error)
      with False rd Inl show ?thesis
        by (subst copyBuffer_loop.simps) simp
    next
      case (Inr bs)
      from conn_Read_bytes [OF rd [unfolded Inr]]
      have b: "tbytes (conn c) = length bs + tbytes t" "length bs \<le> N"
        by simp_all
      show ?thesis
      proof (cases "bs = []")
        case True
        from "1.IH"(1) [OF False rd [symmetric, unfolded Inr] refl True] b True
        show ?thesis
          using False rd Inr by (subst copyBuffer_loop.simps) simp
      next
        case nonempty: False
        show ?thesis
        proof (cases "recvWriter_err c")
          case None
          then have w: "recvWriter_Write bs (c\<lparr>conn := t\<rparr>)
              = (None, c\<lparr>conn := t, recvPipe := recvPipe c @ bs\<rparr>)"
            by (simp add: recvWriter_Write_def)
          from "1.IH"(2) [OF False rd [symmetric, unfolded Inr] refl nonempty w [symmetric] refl] b
          show ?thesis
            using False rd Inr nonempty w by (subst copyBuffer_loop.simps) simp
        next
          case (Some e)
          then have w: "recvWriter_Write bs (c\<lparr>conn := t\<rparr>) = (Some ErrClosedPipe, c\<lparr>conn := t\<rparr>)"
            by (simp add: recvWriter_Write_def)
          show ?thesis
            using False rd Inr nonempty w b by (subst copyBuffer_loop.simps) simp
        qed
      qed
    qed
  qed
qed

lemma readDataFrame_no_overread:
  assumes "conn_Read 4 (conn c) = (Inr hdr, t)"
  shows "tbytes t \<le> unat (Uint32 (pad 4 hdr)) + tbytes (conn (snd (readDataFrame c)))"
proof (cases "subprotoMaxFrameSize < unat (Uint32 (pad 4 hdr))")
  case True
  with assms show ?thesis
    by (simp add: readDataFrame_def)
next
  case False
  obtain n err c' where k: "copyNBuffer (unat (Uint32 (pad 4 hdr))) (c\<lparr>conn := t\<rparr>)
      = ((n, err), c')"
    by (metis surj_pair)
  have "tbytes t \<le> unat (Uint32 (pad 4 hdr)) + tbytes (conn c')"
    using copyBuffer_loop_bytes [of "c\<lparr>conn := t\<rparr>" "unat (Uint32 (pad 4 hdr))" 0] k
    by (simp add: copyNBuffer_def)
  with assms False k show ?thesis
    by (cases err) (simp_all add: readDataFrame_def)
qed

section \<open>Facts about the writer side\<close>

lemma writeFrame_loop_0: "writeFrame_loop 0 c = (Ok, c)"
  by (simp add: writeFrame_loop.simps)

lemma sendReader_Read_conn: "sendReader_Read k c = (r, c1) \<Longrightarrow> conn c1 = conn c"
  by (auto simp: sendReader_Read_def split: option.splits list.splits)

lemma conn_Write_cases:
  "conn_Write f t = (r, t') \<Longrightarrow>
   (r \<noteq> None \<and> t' = t) \<or> (r = None \<and> t' = t\<lparr>outbound := outbound t @ [f]\<rparr>)"
  by (auto simp: conn_Write_def split: option.splits)

lemma writeFrame_loop_frames:
  "\<exists>fs. outbound (conn (snd (writeFrame_loop nb c))) = outbound (conn c) @ fs
      \<and> (\<forall>f\<in>set fs. \<exists>p. length p \<le> subprotoMaxFrameSize \<and> makeDataFrame p = Inr f)
      \<and> (\<forall>msg. fst (writeFrame_loop nb c) \<noteq> Panicked msg)"
proof (induction nb arbitrary: c rule: less_induct)
  case (less nb)
  define k where "k = min nb subprotoMaxFrameSize"
  show ?case
  proof (cases "nb = 0")
    case True
    then show ?thesis by (simp add: writeFrame_loop_0)
  next
    case False
    then have pos: "0 < nb" by simp
    have k: "k \<le> subprotoMaxFrameSize" "0 < k"
      using pos by (simp_all add: k_def subprotoMaxFrameSize_def)
    obtain r c1 where rd: "sendReader_Read k c = (r, c1)"
      by (cases "sendReader_Read k c")
    have c1: "conn c1 = conn c"
      using rd by (rule sendReader_Read_conn)
    show ?thesis
    proof (cases r)
      case (Fail e)
      with rd pos c1 show ?thesis
        by (subst (1 2) writeFrame_loop.simps) (simp add: k_def [symmetric])
    next
      case Wait
      with rd pos c1 show ?thesis
        by (subst (1 2) writeFrame_loop.simps) (simp add: k_def [symmetric])
    next
      case (Got bs)
      define p where "p = pad k bs"
      have lp: "length p \<le> subprotoMaxFrameSize"
        using k by (simp add: p_def length_pad)
      then obtain f where f: "makeDataFrame p = Inr f"
        using makeDataFrame_small by blast
      obtain w t where cw: "conn_Write f (conn c1) = (w, t)"
        by (cases "conn_Write f (conn c1)")
      from conn_Write_cases [OF cw] show ?thesis
      proof
        assume a: "w \<noteq> None \<and> t = conn c1"
        then obtain e where "w = Some e" by auto
        with rd pos c1 Got f cw a show ?thesis
          by (subst (1 2) writeFrame_loop.simps) (simp add: k_def [symmetric] p_def [symmetric])
      next
        assume a: "w = None \<and> t = conn c1\<lparr>outbound := outbound (conn c1) @ [f]\<rparr>"
        have step: "writeFrame_loop nb c = writeFrame_loop (nb - k) (c1\<lparr>conn := t\<rparr>)"
          using rd pos Got f cw a
          by (subst writeFrame_loop.simps) (simp add: k_def [symmetric] p_def [symmetric])
        have "nb - k < nb" using pos k by simp
        from less.IH [OF this, of "c1\<lparr>conn := t\<rparr>"] obtain fs where
          fs: "outbound (conn (snd (writeFrame_loop (nb - k) (c1\<lparr>conn := t\<rparr>))))
                = outbound (conn (c1\<lparr>conn := t\<rparr>)) @ fs"
            "\<forall>f\<in>set fs. \<exists>p. length p \<le> subprotoMaxFrameSize \<and> makeDataFrame p = Inr f"
            "\<forall>msg. fst (writeFrame_loop (nb - k) (c1\<lparr>conn := t\<rparr>)) \<noteq> Panicked msg"
          by blast
        have "outbound (conn (snd (writeFrame_loop nb c))) = outbound (conn c) @ (f # fs)"
          using fs(1) a c1 by (simp add: step)
        moreover have "\<forall>g\<in>set (f # fs). \<exists>p. length p \<le> subprotoMaxFrameSize \<and> makeDataFrame p = Inr g"
          using fs(2) lp f by auto
        moreover have "\<forall>msg. fst (writeFrame_loop nb c) \<noteq> Panicked msg"
          using fs(3) by (simp add: step)
        ultimately show ?thesis by blast
      qed
    qed
  qed
qed

lemma writeFrame_loop_single:
  assumes "sendWriter_err c = None" "\<forall>i. wfail (conn c) i = None" "sendPipe c = [buf]"
    "buf \<noteq> []"
  shows "\<exists>fs. map Inr fs = map makeDataFrame (spec_chunks subprotoMaxFrameSize buf)
     \<and> writeFrame_loop (length buf) c
        = (Ok, c\<lparr>sendPipe := [], conn := (conn c)\<lparr>outbound := outbound (conn c) @ fs\<rparr>\<rparr>)"
  using assms
proof (induction "length buf" arbitrary: buf c rule: less_induct)
  case less
  let ?M = subprotoMaxFrameSize
  define k where "k = min (length buf) ?M"
  have M: "0 < ?M" by (simp add: subprotoMaxFrameSize_def)
  have pos: "0 < length buf" using less.prems(4) by simp
  have tk: "take k buf = take ?M buf" by (simp add: k_def min_def)
  have lt: "length (take ?M buf) \<le> ?M" by simp
  obtain f where f: "makeDataFrame (take ?M buf) = Inr f"
    using makeDataFrame_small [OF lt] by blast
  have pd: "pad k (take k buf) = take ?M buf"
    by (simp add: pad_full k_def min_def)
  define c2 where "c2 = c\<lparr>sendPipe := (if length buf \<le> k then [] else [drop k buf]),
      conn := (conn c)\<lparr>outbound := outbound (conn c) @ [f]\<rparr>\<rparr>"
  have rd: "sendReader_Read k c = (Got (take k buf),
      c\<lparr>sendPipe := (if length buf \<le> k then [] else [drop k buf])\<rparr>)"
    using less.prems(1,3) by (simp add: sendReader_Read_def)
  have cw: "conn_Write f (conn c) = (None, (conn c)\<lparr>outbound := outbound (conn c) @ [f]\<rparr>)"
    using less.prems(2) by (simp add: conn_Write_def)
  have step: "writeFrame_loop (length buf) c = writeFrame_loop (length buf - k) c2"
    using pos rd cw f pd
    by (subst writeFrame_loop.simps) (simp add: k_def [symmetric] c2_def)
  have ch: "spec_chunks ?M buf = take ?M buf # spec_chunks ?M (drop ?M buf)"
    using M less.prems(4) by (rule chunks_rec)
  show ?case
  proof (cases "length buf \<le> ?M")
    case True
    then have "k = length buf" by (simp add: k_def)
    then have "writeFrame_loop (length buf) c
        = (Ok, c\<lparr>sendPipe := [], conn := (conn c)\<lparr>outbound := outbound (conn c) @ [f]\<rparr>\<rparr>)"
      by (simp add: step writeFrame_loop_0 c2_def)
    moreover have "map Inr [f] = map makeDataFrame (spec_chunks ?M buf)"
      using True f by (simp add: ch chunks_Nil)
    ultimately show ?thesis by blast
  next
    case False
    then have kM: "k = ?M" by (simp add: k_def)
    have ne: "drop ?M buf \<noteq> []" using False by simp
    have sm: "length (drop ?M buf) < length buf" using M pos by simp
    have c2: "sendWriter_err c2 = None" "\<forall>i. wfail (conn c2) i = None"
        "sendPipe c2 = [drop ?M buf]"
      using less.prems(1,2) False by (simp_all add: c2_def kM)
    from less.hyps [OF sm c2 ne] obtain fs where
      fs: "map Inr fs = map makeDataFrame (spec_chunks ?M (drop ?M buf))"
        "writeFrame_loop (length (drop ?M buf)) c2
          = (Ok, c2\<lparr>sendPipe := [], conn := (conn c2)\<lparr>outbound := outbound (conn c2) @ fs\<rparr>\<rparr>)"
      by blast
    have "writeFrame_loop (length buf) c
        = (Ok, c\<lparr>sendPipe := [], conn := (conn c)\<lparr>outbound := outbound (conn c) @ (f # fs)\<rparr>\<rparr>)"
      using fs(2) by (simp add: step kM c2_def)
    moreover have "map Inr (f # fs) = map makeDataFrame (spec_chunks ?M buf)"
      using fs(1) f by (simp add: ch)
    ultimately show ?thesis by blast
  qed
qed

lemma sendReader_Read_counters:
  "sendReader_Read k c = (r, c1) \<Longrightarrow>
   recvNbAcked c1 = recvNbAcked c \<and> recvNbUnacked c1 = recvNbUnacked c
   \<and> sendNbAcked c1 = sendNbAcked c"
  by (auto simp: sendReader_Read_def split: option.splits list.splits)

lemma writeFrame_loop_counters:
  "recvNbAcked (snd (writeFrame_loop nb c)) = recvNbAcked c
   \<and> recvNbUnacked (snd (writeFrame_loop nb c)) = recvNbUnacked c
   \<and> sendNbAcked (snd (writeFrame_loop nb c)) = sendNbAcked c"
proof (induction nb arbitrary: c rule: less_induct)
  case (less nb)
  define k where "k = min nb subprotoMaxFrameSize"
  show ?case
  proof (cases "nb = 0")
    case True
    then show ?thesis by (simp add: writeFrame_loop_0)
  next
    case False
    then have pos: "0 < nb" by simp
    have k: "k \<le> subprotoMaxFrameSize" "0 < k"
      using pos by (simp_all add: k_def subprotoMaxFrameSize_def)
    obtain r c1 where rd: "sendReader_Read k c = (r, c1)"
      by (cases "sendReader_Read k c")
    note c1 = sendReader_Read_counters [OF rd]
    show ?thesis
    proof (cases r)
      case (Fail e)
      with rd pos c1 show ?thesis
        by (subst (1 2 3) writeFrame_loop.simps) (simp add: k_def [symmetric])
    next
      case Wait
      with rd pos c1 show ?thesis
        by (subst (1 2 3) writeFrame_loop.simps) (simp add: k_def [symmetric])
    next
      case (Got bs)
      have "length (pad k bs) \<le> subprotoMaxFrameSize"
        using k by (simp add: length_pad)
      then obtain f where f: "makeDataFrame (pad k bs) = Inr f"
        using makeDataFrame_small by blast
      obtain w t where cw: "conn_Write f (conn c1) = (w, t)"
        by (cases "conn_Write f (conn c1)")
      show ?thesis
      proof (cases w)
        case (Some e)
        with rd pos c1 Got f cw show ?thesis
          by (subst (1 2 3) writeFrame_loop.simps) (simp add: k_def [symmetric])
      next
        case None
        have step: "writeFrame_loop nb c = writeFrame_loop (nb - k) (c1\<lparr>conn := t\<rparr>)"
          using rd pos Got f cw None
          by (subst writeFrame_loop.simps) (simp add: k_def [symmetric])
        have "nb - k < nb" using pos k by simp
        from less.IH [OF this, of "c1\<lparr>conn := t\<rparr>"] c1 show ?thesis
          by (simp add: step)
      qed
    qed
  qed
qed

lemma write_pass_counters:
  "recvNbAcked (snd (write_pass ann c)) = recvNbAcked c
   \<and> recvNbUnacked (snd (write_pass ann c)) = recvNbUnacked c
   \<and> sendNbAcked (snd (write_pass ann c)) = sendNbAcked c"
proof (cases ann)
  case None
  then show ?thesis
    by (simp add: write_pass_def writeFrame_def closeWriters_def)
next
  case (Some nb)
  obtain st c' where r: "writeFrame_loop nb c = (st, c')"
    by (cases "writeFrame_loop nb c")
  with writeFrame_loop_counters [of nb c] Some show ?thesis
    by (cases st) (simp_all add: write_pass_def writeFrame_def closeWriters_def)
qed

section \<open>The properties of the specification, C1 to C10\<close>

text \<open>
  C1. A \<open>Write\<close> of \<open>N\<close> bytes on an open tunnel (pipes open, no other write pending,
  a transport that accepts writes) makes the writer loop emit exactly \<open>\<lceil>N/16384\<rceil>\<close> DATA
  frames, each with a payload of at most 16384 bytes and a header that declares the
  payload's length; the payloads are the consecutive chunks of the buffer and their
  concatenation is the buffer.
\<close>

theorem Write_chunking:
  assumes "sendWriter_err c = None" and "sendPipe c = []" and "\<forall>i. wfail (conn c) i = None"
  shows "case Conn_Write buf c of (wr, st, c') \<Rightarrow>
     st = Ok
     \<and> (buf \<noteq> [] \<longrightarrow> wr = Returned (length buf) None)
     \<and> (\<exists>fs. outbound (conn c') = outbound (conn c) @ fs
          \<and> length fs = (length buf + subprotoMaxFrameSize - 1) div subprotoMaxFrameSize
          \<and> map Inr fs = map makeDataFrame (spec_chunks subprotoMaxFrameSize buf)
          \<and> map (drop 6) fs = spec_chunks subprotoMaxFrameSize buf
          \<and> (\<forall>f\<in>set fs. take 2 f = [0, 4] \<and> length (drop 6 f) \<le> subprotoMaxFrameSize
                \<and> unat (Uint32 (take 4 (drop 2 f))) = length (drop 6 f))
          \<and> concat (map (drop 6) fs) = buf)"
proof -
  let ?M = subprotoMaxFrameSize
  define c1 where "c1 = c\<lparr>sendPipe := [buf]\<rparr>"
  have M: "0 < ?M" by (simp add: subprotoMaxFrameSize_def)
  have c1: "sendWriter_err c1 = None" "\<forall>i. wfail (conn c1) i = None" "sendPipe c1 = [buf]"
    using assms by (simp_all add: c1_def)
  have "\<exists>fs. map Inr fs = map makeDataFrame (spec_chunks ?M buf)
     \<and> writeFrame_loop (length buf) c1
        = (Ok, c1\<lparr>sendPipe := (if buf = [] then [[]] else []),
             conn := (conn c1)\<lparr>outbound := outbound (conn c1) @ fs\<rparr>\<rparr>)"
  proof (cases "buf = []")
    case True
    then show ?thesis
      using c1(3) by (simp add: writeFrame_loop_0 chunks_Nil)
  next
    case False
    with writeFrame_loop_single [OF c1 False] show ?thesis by simp
  qed
  then obtain fs where fs: "map Inr fs = map makeDataFrame (spec_chunks ?M buf)"
    and run: "writeFrame_loop (length buf) c1
        = (Ok, c1\<lparr>sendPipe := (if buf = [] then [[]] else []),
             conn := (conn c1)\<lparr>outbound := outbound (conn c1) @ fs\<rparr>\<rparr>)"
    by blast
  have le: "\<forall>p\<in>set (spec_chunks ?M buf). length p \<le> ?M"
    by (simp add: chunk_le)
  note pl = frames_payloads [OF fs le]
  have len: "length fs = (length buf + ?M - 1) div ?M"
    using arg_cong [OF fs, of length] by (simp add: length_chunks)
  have cc: "concat (map (drop 6) fs) = buf"
    using pl concat_chunks [OF M, of buf] by simp
  have res: "Conn_Write buf c
      = ((if buf = [] then Pending else Returned (length buf) None), Ok,
         c1\<lparr>sendPipe := (if buf = [] then [[]] else []),
             conn := (conn c1)\<lparr>outbound := outbound (conn c1) @ fs\<rparr>\<rparr>)"
    using assms(1,2) run
    by (simp add: Conn_Write_def write_pass_def writeFrame_def c1_def [symmetric] c1(1))
  show ?thesis
    unfolding res using fs pl len cc by (auto simp: c1_def)
qed

theorem Write_chunking_witness:
  "case Conn_Write (replicate 20000 0xAA) (newConn (idle_transport [] EOF)) of
     (wr, st, c') \<Rightarrow>
       st = Ok \<and> wr = Returned 20000 None
       \<and> length (outbound (conn c')) = 2
       \<and> map (\<lambda>f. length (drop 6 f)) (outbound (conn c')) = [16384, 3616]
       \<and> concat (map (drop 6) (outbound (conn c'))) = replicate 20000 0xAA"
proof -
  let ?c = "newConn (idle_transport [] EOF)"
  let ?buf = "replicate 20000 (0xAA :: byte)"
  have h: "sendWriter_err ?c = None" "sendPipe ?c = []" "\<forall>i. wfail (conn ?c) i = None"
    by (simp_all add: newConn_def idle_transport_def)
  have ch: "spec_chunks subprotoMaxFrameSize ?buf = [replicate 16384 0xAA, replicate 3616 0xAA]"
    by (simp add: chunks_rec chunks_Nil subprotoMaxFrameSize_def)
  have o: "outbound (conn ?c) = []"
    by (simp add: newConn_def idle_transport_def)
  obtain wr st c' where r: "Conn_Write ?buf ?c = (wr, st, c')"
    by (metis surj_pair)
  from Write_chunking [OF h, of ?buf] obtain fs where
    f: "st = Ok" "wr = Returned 20000 None" "outbound (conn c') = fs" "length fs = 2"
    and pl: "map (drop 6) fs = [replicate 16384 0xAA, replicate 3616 0xAA]"
    and cc: "concat (map (drop 6) fs) = ?buf"
    unfolding r ch o by (auto simp: subprotoMaxFrameSize_def)
  have "map (\<lambda>f. length (drop 6 f)) fs = map length (map (drop 6) fs)"
    by (simp add: o_def del: length_drop)
  also have "\<dots> = [16384, 3616]"
    unfolding pl by simp
  finally have "map (\<lambda>f. length (drop 6 f)) fs = [16384, 3616]" .
  with f cc show ?thesis
    unfolding r by (simp del: length_drop)
qed

text \<open>
  C2. When a connected tunnel reads a DATA frame and the transport accepts a write:
  after \<open>readFrame\<close>, \<open>recvNbUnacked - recvNbAcked\<close> is at most 32768; if the bytes of the
  frame took the difference above 32768, exactly one frame was written, the ACK frame
  carrying the new \<open>recvNbUnacked\<close>, and \<open>recvNbAcked\<close> equals \<open>recvNbUnacked\<close>; otherwise
  nothing was written and \<open>recvNbAcked\<close> is unchanged. The error returned and
  \<open>recvNbUnacked\<close> are those of \<open>readDataFrame\<close>.
\<close>

theorem ack_threshold:
  assumes "connected c"
    and "conn_Read 2 (conn c) = (Inr bs, t)"
    and "Uint16 (pad 2 bs) = subprotoTagData"
    and "wfail (conn c) (length (outbound (conn c))) = None"
  shows "case readFrame c of (err, c') \<Rightarrow>
      unat (recvNbUnacked c' - recvNbAcked c') \<le> subprotoAckThreshold
    \<and> (if subprotoAckThreshold < unat (recvNbUnacked c' - recvNbAcked c)
       then outbound (conn c') = outbound (conn c) @ [makeAckFrame (recvNbUnacked c')]
          \<and> recvNbAcked c' = recvNbUnacked c'
       else outbound (conn c') = outbound (conn c) \<and> recvNbAcked c' = recvNbAcked c)
    \<and> (case readDataFrame (c\<lparr>conn := t\<rparr>) of
         (err2, c2) \<Rightarrow> err = err2 \<and> recvNbUnacked c' = recvNbUnacked c2)"
proof -
  define c1 where "c1 = c\<lparr>conn := t\<rparr>"
  obtain err c2 where d: "readDataFrame c1 = (err, c2)"
    by (cases "readDataFrame c1")
  from conn_Read_frame [OF assms(2)] obtain inb where t: "t = (conn c)\<lparr>inbound := inb\<rparr>"
    by blast
  from readDataFrame_frame [of c1] d obtain inb' rp un where
    c2: "c2 = c1\<lparr>conn := (conn c1)\<lparr>inbound := inb'\<rparr>, recvPipe := rp, recvNbUnacked := un\<rparr>"
    by auto
  have keep: "outbound (conn c2) = outbound (conn c)" "wfail (conn c2) = wfail (conn c)"
    "recvNbAcked c2 = recvNbAcked c"
    by (simp_all add: c2 c1_def t)
  have rf: "readFrame c =
      (if subprotoAckThreshold < unat (recvNbUnacked c2 - recvNbAcked c2)
       then (case writeAck (recvNbUnacked c2) c2 of
               (Some e, c3) \<Rightarrow> (Some e, c3)
             | (None, c3) \<Rightarrow> (err, c3\<lparr>recvNbAcked := recvNbUnacked c3\<rparr>))
       else (err, c2))"
    using assms(1,2,3) d tags_distinct
    by (simp add: readFrame_def c1_def [symmetric] c1_def [THEN arg_cong, of connected])
  have wa: "writeAck nb c2
      = (None, c2\<lparr>conn := (conn c2)\<lparr>outbound := outbound (conn c) @ [makeAckFrame nb]\<rparr>\<rparr>)"
    for nb
    using assms(4) keep by (simp add: writeAck_def conn_Write_def)
  show ?thesis
  proof (cases "subprotoAckThreshold < unat (recvNbUnacked c2 - recvNbAcked c2)")
    case True
    then show ?thesis
      using keep by (simp add: rf wa d c1_def [symmetric])
  next
    case False
    then show ?thesis
      using keep by (simp add: rf d c1_def [symmetric])
  qed
qed

theorem ack_threshold_witness:
  "case readFrame ((newConn (idle_transport [[0, 4, 0, 0, 0, 1, 65]] EOF))
        \<lparr>connected := True, recvNbUnacked := 32768\<rparr>) of
     (err, c') \<Rightarrow>
       err = None
       \<and> unat (recvNbUnacked c' - recvNbAcked c') \<le> subprotoAckThreshold
       \<and> recvNbUnacked c' = 32769 \<and> recvNbAcked c' = 32769
       \<and> outbound (conn c') = [[0, 7, 0, 0, 0, 0, 0, 0, 128, 1]]"
proof -
  let ?c = "(newConn (idle_transport [[0, 4, 0, 0, 0, 1, 65]] EOF))
        \<lparr>connected := True, recvNbUnacked := 32768\<rparr>"
  let ?t = "idle_transport [[0, 0, 0, 1, 65]] EOF"
  have 1: "connected ?c" by simp
  have 2: "conn_Read 2 (conn ?c) = (Inr [0, 4], ?t)"
    by (simp add: conn_Read_def newConn_def idle_transport_def)
  have 3: "Uint16 (pad 2 [0, 4]) = subprotoTagData"
    by (rule tag_bytes)
  have 4: "wfail (conn ?c) (length (outbound (conn ?c))) = None"
    by (simp add: newConn_def idle_transport_def)
  have d: "readDataFrame (?c\<lparr>conn := ?t\<rparr>)
      = (None, ?c\<lparr>conn := idle_transport [] EOF, recvPipe := [65], recvNbUnacked := 32769\<rparr>)"
    by (simp add: readDataFrame_def copyNBuffer_def copyBuffer_loop.simps conn_Read_def
        recvWriter_Write_def newConn_def idle_transport_def Uint32_def pad_def
        subprotoMaxFrameSize_def)
  have a: "makeAckFrame 32769 = [0, 7, 0, 0, 0, 0, 0, 0, 128, 1]"
    by (simp add: makeAckFrame_def PutUint16_def PutUint64_def subprotoTagAck_def
        drop_bit_eq_div)
  have o: "outbound (conn ?c) = []" "recvNbAcked ?c = 0"
    by (simp_all add: newConn_def idle_transport_def)
  obtain err c' where r: "readFrame ?c = (err, c')"
    by (cases "readFrame ?c")
  from ack_threshold [OF 1 2 3 4] show ?thesis
    unfolding r d o by (auto simp: a subprotoAckThreshold_def subprotoMaxFrameSize_def
        split: if_splits)
qed

text \<open>
  C3. A DATA frame and an ACK frame that arrive on a fresh tunnel, before any SUCCESS
  frame: \<open>readFrame\<close> fails with a \<open>ProtocolError\<close> and the reader loop closes the pipes
  with it, but the message of the error is not the one the specification gives: the words
  \<open>did not\<close> are transposed in the code.
\<close>

theorem handshake_gate_message:
  "fst (readFrame (newConn (idle_transport [[0, 4, 0, 0, 0, 1, 65]] EOF)))
     = Some (ProtocolError ''expected success frame but not did receive one'')
   \<and> fst (readFrame (newConn (idle_transport [[0, 7, 0, 0, 0, 0, 0, 0, 0, 5]] EOF)))
     = Some (ProtocolError ''expected success frame but not did receive one'')
   \<and> fst (readFrame (newConn (idle_transport [[0, 4, 0, 0, 0, 1, 65]] EOF)))
     \<noteq> Some (ProtocolError ''expected success frame but did not receive one'')
   \<and> recvWriter_err (read (newConn (idle_transport [[0, 4, 0, 0, 0, 1, 65]] EOF)))
     = Some (ProtocolError ''expected success frame but not did receive one'')"
  by (simp add: read.simps readFrame_def conn_Read_def newConn_def idle_transport_def
      Uint16_def pad_def subprotoTagSuccess_def closeWriters_def CloseWithError_def)

text \<open>
  C4 as stated fails for \<open>sendNbAcked\<close>: after the handshake the peer sends an ACK frame
  with the count 5 and then one with the count 3; all three frames are handled without
  an error and \<open>sendNbAcked\<close> goes from 5 down to 3. (The counters are 64-bit: in the
  state where \<open>recvNbUnacked\<close> is \<open>2^64 - 1\<close>, one more byte of DATA wraps it around
  to 0.)
\<close>

theorem sendNbAcked_decreases_counterexample:
  "(case readFrame (newConn (idle_transport
        [[0, 1, 0, 0, 0, 1, 97], [0, 7, 0, 0, 0, 0, 0, 0, 0, 5],
         [0, 7, 0, 0, 0, 0, 0, 0, 0, 3]] EOF)) of
      (e1, c1) \<Rightarrow>
        (case readFrame c1 of
           (e2, c2) \<Rightarrow>
             (case readFrame c2 of
                (e3, c3) \<Rightarrow>
                  e1 = None \<and> e2 = None \<and> e3 = None
                  \<and> sendNbAcked c2 = 5 \<and> sendNbAcked c3 = 3
                  \<and> sendNbAcked c3 < sendNbAcked c2)))
   \<and> (case readFrame ((newConn (idle_transport [[0, 4, 0, 0, 0, 1, 65]] EOF))
          \<lparr>connected := True, recvNbAcked := 0xFFFFFFFFFFFFFFFF,
            recvNbUnacked := 0xFFFFFFFFFFFFFFFF\<rparr>) of
        (err, c') \<Rightarrow> err = None \<and> recvNbUnacked c' = 0 \<and> recvNbUnacked c' < 0xFFFFFFFFFFFFFFFF)"
  by (simp add: readFrame_def readSuccessFrame_def readAckFrame_def readDataFrame_def
      copyNBuffer_def copyBuffer_loop.simps recvWriter_Write_def conn_Read_def newConn_def
      idle_transport_def Uint16_def Uint32_def Uint64_def pad_def subprotoTagSuccess_def
      subprotoTagAck_def subprotoTagData_def subprotoMaxFrameSize_def
      subprotoAckThreshold_def)

text \<open>
  C4, amended. \<open>recvNbAcked\<close> and \<open>recvNbUnacked\<close> never decrease in a step of the reader
  loop, and \<open>recvNbAcked\<close> stays at most \<open>recvNbUnacked\<close>, as long as the 64-bit
  \<open>recvNbUnacked\<close> is not within one frame of wrapping around; a pass of the writer loop
  changes none of the three counters. \<open>sendNbAcked\<close> is not monotonic: an ACK frame on a
  connected tunnel sets it to the count the frame carries, whatever it was, and a frame
  with any other tag leaves it as it was.
\<close>

theorem counters_steps:
  "(recvNbAcked c \<le> recvNbUnacked c \<and> unat (recvNbUnacked c) + subprotoMaxFrameSize < 2 ^ 64 \<longrightarrow>
      recvNbAcked c \<le> recvNbAcked (snd (readFrame c))
      \<and> recvNbUnacked c \<le> recvNbUnacked (snd (readFrame c))
      \<and> recvNbAcked (snd (readFrame c)) \<le> recvNbUnacked (snd (readFrame c)))
   \<and> (recvNbAcked (snd (write_pass ann c)) = recvNbAcked c
      \<and> recvNbUnacked (snd (write_pass ann c)) = recvNbUnacked c
      \<and> sendNbAcked (snd (write_pass ann c)) = sendNbAcked c)
   \<and> (connected c \<and> conn_Read 2 (conn c) = (Inr bs, t1) \<and> Uint16 (pad 2 bs) = subprotoTagAck
        \<and> conn_Read 8 t1 = (Inr cnt, t2) \<longrightarrow>
      readFrame c = (None, c\<lparr>conn := t2, sendNbAcked := Uint64 (pad 8 cnt)\<rparr>))
   \<and> (conn_Read 2 (conn c) = (Inr bs, t1) \<and> Uint16 (pad 2 bs) \<noteq> subprotoTagAck \<longrightarrow>
      sendNbAcked (snd (readFrame c)) = sendNbAcked c)"
proof -
  let ?c' = "snd (readFrame c)"
  have A: "recvNbAcked c \<le> recvNbAcked ?c' \<and> recvNbUnacked c \<le> recvNbUnacked ?c'
      \<and> recvNbAcked ?c' \<le> recvNbUnacked ?c'"
    if inv: "recvNbAcked c \<le> recvNbUnacked c"
      and nowrap: "unat (recvNbUnacked c) + subprotoMaxFrameSize < 2 ^ 64"
  proof -
    have u: "recvNbUnacked c \<le> recvNbUnacked ?c'"
      using readFrame_counters [of c] counter_add_mono [OF _ nowrap] by auto
    have "recvNbAcked ?c' = recvNbAcked c \<or> recvNbAcked ?c' = recvNbUnacked ?c'"
      using readFrame_counters [of c] by blast
    then show ?thesis
      using u inv by auto
  qed
  have C: "readFrame c = (None, c\<lparr>conn := t2, sendNbAcked := Uint64 (pad 8 cnt)\<rparr>)"
    if "connected c" "conn_Read 2 (conn c) = (Inr bs, t1)"
      "Uint16 (pad 2 bs) = subprotoTagAck" "conn_Read 8 t1 = (Inr cnt, t2)"
    using that tags_distinct by (simp add: readFrame_def readAckFrame_def)
  have D: "sendNbAcked ?c' = sendNbAcked c"
    if rd: "conn_Read 2 (conn c) = (Inr bs, t1)" and na: "Uint16 (pad 2 bs) \<noteq> subprotoTagAck"
  proof -
    define c1 where "c1 = c\<lparr>conn := t1\<rparr>"
    obtain err c2 where dd: "readDataFrame c1 = (err, c2)"
      by (cases "readDataFrame c1")
    have c2: "sendNbAcked c2 = sendNbAcked c"
      using readDataFrame_counters [of c1] dd by (simp add: c1_def)
    obtain w c3 where ww: "writeAck (recvNbUnacked c2) c2 = (w, c3)"
      by (cases "writeAck (recvNbUnacked c2) c2")
    have c3: "sendNbAcked c3 = sendNbAcked c"
      using writeAck_counters [of "recvNbUnacked c2" c2] ww c2 by simp
    have s: "sendNbAcked (snd (readSuccessFrame c1)) = sendNbAcked c"
      using readSuccessFrame_counters [of c1] by (simp add: c1_def)
    have c1: "sendNbAcked c1 = sendNbAcked c" "connected c1 = connected c"
      by (simp_all add: c1_def)
    define tag where "tag = Uint16 (pad 2 bs)"
    consider (s) "tag = subprotoTagSuccess"
      | (g) "tag \<noteq> subprotoTagSuccess" "\<not> connected c"
      | (d) "tag \<noteq> subprotoTagSuccess" "connected c" "tag = subprotoTagData"
      | (u) "tag \<noteq> subprotoTagSuccess" "connected c" "tag \<noteq> subprotoTagData"
      by blast
    then show ?thesis
    proof cases
      case s
      then have "readFrame c = readSuccessFrame c1"
        using rd by (simp add: readFrame_def tag_def c1_def)
      with \<open>sendNbAcked (snd (readSuccessFrame c1)) = sendNbAcked c\<close> show ?thesis
        by simp
    next
      case g
      then have "readFrame c
          = (Some (ProtocolError ''expected success frame but not did receive one''), c1)"
        using rd by (simp add: readFrame_def tag_def c1_def)
      then show ?thesis
        using c1 by simp
    next
      case d
      have "snd (readFrame c) = c2 \<or> snd (readFrame c) = c3
          \<or> snd (readFrame c) = c3\<lparr>recvNbAcked := recvNbUnacked c3\<rparr>"
        using rd d na dd ww
        by (cases w) (simp_all add: readFrame_def tag_def [symmetric] c1_def [symmetric])
      then show ?thesis
        using c2 c3 by auto
    next
      case u
      then have "readFrame c = (None, c1)"
        using rd na by (simp add: readFrame_def tag_def c1_def)
      then show ?thesis
        using c1 by simp
    qed
  qed
  from A write_pass_counters [of ann c] C D show ?thesis
    by blast
qed

theorem counters_steps_witness:
  "readFrame ((newConn (idle_transport [[0, 7, 0, 0, 0, 0, 0, 0, 0, 3]] EOF))
        \<lparr>connected := True, recvNbAcked := 50, recvNbUnacked := 100, sendNbAcked := 5\<rparr>)
     = (None, (newConn (idle_transport [] EOF))
        \<lparr>connected := True, recvNbAcked := 50, recvNbUnacked := 100, sendNbAcked := 3\<rparr>)
   \<and> (50 :: 64 word) \<le> recvNbAcked (snd (readFrame
        ((newConn (idle_transport [[0, 4, 0, 0, 0, 1, 65]] EOF))
          \<lparr>connected := True, recvNbAcked := 50, recvNbUnacked := 100, sendNbAcked := 5\<rparr>)))
   \<and> (100 :: 64 word) \<le> recvNbUnacked (snd (readFrame
        ((newConn (idle_transport [[0, 4, 0, 0, 0, 1, 65]] EOF))
          \<lparr>connected := True, recvNbAcked := 50, recvNbUnacked := 100, sendNbAcked := 5\<rparr>)))
   \<and> sendNbAcked (snd (readFrame
        ((newConn (idle_transport [[0, 4, 0, 0, 0, 1, 65]] EOF))
          \<lparr>connected := True, recvNbAcked := 50, recvNbUnacked := 100, sendNbAcked := 5\<rparr>)))
     = 5
   \<and> sendNbAcked (snd (write_pass (Some 0)
        ((newConn (idle_transport [] EOF))
          \<lparr>connected := True, recvNbAcked := 50, recvNbUnacked := 100, sendNbAcked := 5\<rparr>)))
     = 5"
proof -
  let ?a = "(newConn (idle_transport [[0, 7, 0, 0, 0, 0, 0, 0, 0, 3]] EOF))
        \<lparr>connected := True, recvNbAcked := 50, recvNbUnacked := 100, sendNbAcked := 5\<rparr>"
  let ?d = "(newConn (idle_transport [[0, 4, 0, 0, 0, 1, 65]] EOF))
        \<lparr>connected := True, recvNbAcked := 50, recvNbUnacked := 100, sendNbAcked := 5\<rparr>"
  let ?w = "(newConn (idle_transport [] EOF))
        \<lparr>connected := True, recvNbAcked := 50, recvNbUnacked := 100, sendNbAcked := 5\<rparr>"
  have a: "connected ?a"
    "conn_Read 2 (conn ?a) = (Inr [0, 7], idle_transport [[0, 0, 0, 0, 0, 0, 0, 3]] EOF)"
    "Uint16 (pad 2 [0, 7]) = subprotoTagAck"
    "conn_Read 8 (idle_transport [[0, 0, 0, 0, 0, 0, 0, 3]] EOF)
      = (Inr [0, 0, 0, 0, 0, 0, 0, 3], idle_transport [] EOF)"
    by (simp_all add: conn_Read_def newConn_def idle_transport_def tag_bytes)
  have d: "recvNbAcked ?d \<le> recvNbUnacked ?d"
    "unat (recvNbUnacked ?d) + subprotoMaxFrameSize < 2 ^ 64"
    "conn_Read 2 (conn ?d) = (Inr [0, 4], idle_transport [[0, 0, 0, 1, 65]] EOF)"
    "Uint16 (pad 2 [0, 4]) \<noteq> subprotoTagAck"
    by (simp_all add: conn_Read_def newConn_def idle_transport_def tag_bytes tags_distinct
        subprotoMaxFrameSize_def)
  have u: "Uint64 (pad 8 [0, 0, 0, 0, 0, 0, 0, 3]) = 3"
    by (simp add: Uint64_def pad_def)
  from counters_steps [of ?a "Some 0" "[0, 7]" "idle_transport [[0, 0, 0, 0, 0, 0, 0, 3]] EOF"
      "[0, 0, 0, 0, 0, 0, 0, 3]" "idle_transport [] EOF"] a
  have 1: "readFrame ?a = (None, ?a\<lparr>conn := idle_transport [] EOF, sendNbAcked := 3\<rparr>)"
    unfolding u by blast
  from counters_steps [of ?d "Some 0" "[0, 4]" "idle_transport [[0, 0, 0, 1, 65]] EOF"] d
  have 2: "recvNbAcked ?d \<le> recvNbAcked (snd (readFrame ?d))"
    "recvNbUnacked ?d \<le> recvNbUnacked (snd (readFrame ?d))"
    "sendNbAcked (snd (readFrame ?d)) = sendNbAcked ?d"
    by blast+
  from counters_steps [of ?w "Some 0"]
  have 3: "sendNbAcked (snd (write_pass (Some 0) ?w)) = sendNbAcked ?w"
    by blast
  from 1 2 3 show ?thesis
    by (simp add: newConn_def)
qed

text \<open>
  C5. A SUCCESS frame, or a DATA frame on a connected tunnel, whose 4-byte length field
  declares more than 16384: both decoders return \<open>ProtocolError\<close> with the message
  \<open>len exceeds subprotocol max data frame size\<close> right after the length field, whatever
  the state; \<open>readFrame\<close> returns that error, and the reader loop stops and closes both
  pipes with it. (For the DATA frame the counters are taken within the ACK threshold, as
  they are after every frame handled, so that no ACK is due.)
\<close>

theorem oversize_length_rejected:
  assumes "conn_Read 2 (conn c) = (Inr bs, t1)"
    and "Uint16 (pad 2 bs) = subprotoTagSuccess
       \<or> Uint16 (pad 2 bs) = subprotoTagData \<and> connected c
          \<and> unat (recvNbUnacked c - recvNbAcked c) \<le> subprotoAckThreshold"
    and "conn_Read 4 t1 = (Inr hdr, t2)"
    and "subprotoMaxFrameSize < unat (Uint32 (pad 4 hdr))"
  shows "readSuccessFrame (c\<lparr>conn := t1\<rparr>)
       = (Some (ProtocolError ''len exceeds subprotocol max data frame size''), c\<lparr>conn := t2\<rparr>)
     \<and> readDataFrame (c\<lparr>conn := t1\<rparr>)
       = (Some (ProtocolError ''len exceeds subprotocol max data frame size''), c\<lparr>conn := t2\<rparr>)
     \<and> readFrame c
       = (Some (ProtocolError ''len exceeds subprotocol max data frame size''), c\<lparr>conn := t2\<rparr>)
     \<and> read c
       = closeWriters (ProtocolError ''len exceeds subprotocol max data frame size'')
           (c\<lparr>conn := t2\<rparr>)"
proof -
  let ?e = "ProtocolError ''len exceeds subprotocol max data frame size''"
  have s: "readSuccessFrame (c\<lparr>conn := t1\<rparr>) = (Some ?e, c\<lparr>conn := t2\<rparr>)"
    using assms(3,4) by (simp add: readSuccessFrame_def)
  have d: "readDataFrame (c\<lparr>conn := t1\<rparr>) = (Some ?e, c\<lparr>conn := t2\<rparr>)"
    using assms(3,4) by (simp add: readDataFrame_def)
  have f: "readFrame c = (Some ?e, c\<lparr>conn := t2\<rparr>)"
    using assms(2)
  proof
    assume "Uint16 (pad 2 bs) = subprotoTagSuccess"
    then show ?thesis
      using assms(1) s by (simp add: readFrame_def)
  next
    assume a: "Uint16 (pad 2 bs) = subprotoTagData \<and> connected c
          \<and> unat (recvNbUnacked c - recvNbAcked c) \<le> subprotoAckThreshold"
    then show ?thesis
      using assms(1) d tags_distinct by (simp add: readFrame_def)
  qed
  from s d f read_stop [OF f] show ?thesis by simp
qed

theorem oversize_length_rejected_witness:
  "readFrame ((newConn (idle_transport [[0, 4, 0, 0, 64, 1, 65]] EOF))\<lparr>connected := True\<rparr>)
     = (Some (ProtocolError ''len exceeds subprotocol max data frame size''),
        (newConn (idle_transport [[65]] EOF))\<lparr>connected := True\<rparr>)
   \<and> recvWriter_err (read ((newConn (idle_transport [[0, 4, 0, 0, 64, 1, 65]] EOF))
        \<lparr>connected := True\<rparr>))
     = Some (ProtocolError ''len exceeds subprotocol max data frame size'')
   \<and> sendWriter_err (read ((newConn (idle_transport [[0, 4, 0, 0, 64, 1, 65]] EOF))
        \<lparr>connected := True\<rparr>))
     = Some (ProtocolError ''len exceeds subprotocol max data frame size'')"
proof -
  let ?c = "(newConn (idle_transport [[0, 4, 0, 0, 64, 1, 65]] EOF))\<lparr>connected := True\<rparr>"
  have 1: "conn_Read 2 (conn ?c) = (Inr [0, 4], idle_transport [[0, 0, 64, 1, 65]] EOF)"
    by (simp add: conn_Read_def newConn_def idle_transport_def)
  have 2: "Uint16 (pad 2 [0, 4]) = subprotoTagSuccess
       \<or> Uint16 (pad 2 [0, 4]) = subprotoTagData \<and> connected ?c
          \<and> unat (recvNbUnacked ?c - recvNbAcked ?c) \<le> subprotoAckThreshold"
    by (simp add: tag_bytes newConn_def)
  have 3: "conn_Read 4 (idle_transport [[0, 0, 64, 1, 65]] EOF)
      = (Inr [0, 0, 64, 1], idle_transport [[65]] EOF)"
    by (simp add: conn_Read_def idle_transport_def)
  have 4: "subprotoMaxFrameSize < unat (Uint32 (pad 4 [0, 0, 64, 1]))"
    by (simp add: Uint32_def pad_def subprotoMaxFrameSize_def)
  from oversize_length_rejected [OF 1 2 3 4] show ?thesis
    by (simp add: newConn_def closeWriters_def CloseWithError_def)
qed

text \<open>
  C6 as stated fails on a second SUCCESS frame: after the handshake with session-id
  \<open>a\<close>, a second SUCCESS frame with session-id \<open>xy\<close> is accepted without an error and
  replaces the session-id.
\<close>

theorem second_success_frame_counterexample:
  "(case readFrame (newConn (idle_transport
        [[0, 1, 0, 0, 0, 1, 97], [0, 1, 0, 0, 0, 2, 120, 121]] EOF)) of
      (err1, c1) \<Rightarrow>
        err1 = None \<and> connected c1 \<and> sessionID c1 = [97]
        \<and> (case readFrame c1 of
              (err2, c2) \<Rightarrow> err2 = None \<and> connected c2 \<and> sessionID c2 = [120, 121]))"
  by (simp add: readFrame_def readSuccessFrame_def conn_Read_def newConn_def
      idle_transport_def Uint16_def Uint32_def pad_def subprotoTagSuccess_def
      subprotoMaxFrameSize_def)

text \<open>
  C6, amended. A SUCCESS frame is handled the same way whether or not the tunnel is
  connected already: when the declared length is at most 16384 and the read of the
  session-id succeeds, \<open>readFrame\<close> returns no error, stores the session-id (replacing
  the one it had) and sets \<open>connected\<close>; nothing else but the transport changes.
\<close>

theorem success_frame_sets_session:
  assumes "conn_Read 2 (conn c) = (Inr bs, t1)"
    and "Uint16 (pad 2 bs) = subprotoTagSuccess"
    and "conn_Read 4 t1 = (Inr hdr, t2)"
    and "unat (Uint32 (pad 4 hdr)) \<le> subprotoMaxFrameSize"
    and "conn_Read (unat (Uint32 (pad 4 hdr))) t2 = (Inr sid, t3)"
  shows "readFrame c
     = (None, c\<lparr>conn := t3, sessionID := pad (unat (Uint32 (pad 4 hdr))) sid,
                connected := True\<rparr>)"
  using assms by (simp add: readFrame_def readSuccessFrame_def)

theorem success_frame_sets_session_witness:
  "readFrame ((newConn (idle_transport [[0, 1, 0, 0, 0, 2, 120, 121]] EOF))
       \<lparr>connected := True, sessionID := [97]\<rparr>)
     = (None, (newConn (idle_transport [] EOF))\<lparr>connected := True, sessionID := [120, 121]\<rparr>)"
proof -
  let ?c = "(newConn (idle_transport [[0, 1, 0, 0, 0, 2, 120, 121]] EOF))
       \<lparr>connected := True, sessionID := [97]\<rparr>"
  have 1: "conn_Read 2 (conn ?c) = (Inr [0, 1], idle_transport [[0, 0, 0, 2, 120, 121]] EOF)"
    by (simp add: conn_Read_def newConn_def idle_transport_def)
  have 2: "Uint16 (pad 2 [0, 1]) = subprotoTagSuccess"
    by (rule tag_bytes)
  have 3: "conn_Read 4 (idle_transport [[0, 0, 0, 2, 120, 121]] EOF)
      = (Inr [0, 0, 0, 2], idle_transport [[120, 121]] EOF)"
    by (simp add: conn_Read_def idle_transport_def)
  have u: "unat (Uint32 (pad 4 [0, 0, 0, 2])) = 2"
    by (simp add: Uint32_def pad_def)
  have 4: "unat (Uint32 (pad 4 [0, 0, 0, 2])) \<le> subprotoMaxFrameSize"
    by (simp add: u subprotoMaxFrameSize_def)
  have 5: "conn_Read (unat (Uint32 (pad 4 [0, 0, 0, 2]))) (idle_transport [[120, 121]] EOF)
      = (Inr [120, 121], idle_transport [] EOF)"
    by (simp add: u conn_Read_def idle_transport_def)
  show ?thesis
    using success_frame_sets_session [OF 1 2 3 4 5]
    by (simp add: pad_def Uint32_def newConn_def)
qed

text \<open>
  C7 as stated fails before the handshake: on a fresh tunnel a frame with the unknown
  tag \<open>0x0009\<close> makes \<open>readFrame\<close> return a \<open>ProtocolError\<close>, and the reader loop stops
  and closes the pipes with it.
\<close>

theorem unknown_tag_before_handshake_counterexample:
  "fst (readFrame (newConn (idle_transport [[0, 9]] EOF)))
     = Some (ProtocolError ''expected success frame but not did receive one'')
   \<and> recvWriter_err (read (newConn (idle_transport [[0, 9]] EOF)))
     = Some (ProtocolError ''expected success frame but not did receive one'')"
  by (simp add: read.simps readFrame_def conn_Read_def newConn_def idle_transport_def
      Uint16_def pad_def subprotoTagSuccess_def closeWriters_def CloseWithError_def)

text \<open>
  C7, amended. For a frame whose tag is not SUCCESS, DATA or ACK: once the tunnel is
  connected, \<open>readFrame\<close> returns no error and changes nothing but the transport, from
  which only the read of the tag has taken bytes, and the reader loop goes on with the
  next frame; before the handshake \<open>readFrame\<close> fails with the \<open>ProtocolError\<close> of the
  handshake gate.
\<close>

theorem unknown_tag_ignored_once_connected:
  assumes "conn_Read 2 (conn c) = (Inr bs, t)"
    and "Uint16 (pad 2 bs) \<notin> {subprotoTagSuccess, subprotoTagData, subprotoTagAck}"
  shows "(connected c \<longrightarrow>
            readFrame c = (None, c\<lparr>conn := t\<rparr>) \<and> read c = read (c\<lparr>conn := t\<rparr>))
     \<and> (\<not> connected c \<longrightarrow>
            readFrame c = (Some (ProtocolError
              ''expected success frame but not did receive one''), c\<lparr>conn := t\<rparr>))"
proof -
  have "readFrame c = (None, c\<lparr>conn := t\<rparr>)" if "connected c"
    using assms that by (simp add: readFrame_def)
  then show ?thesis
    using assms handshake_gate [of c bs t] by (auto dest: read_continue)
qed

theorem unknown_tag_ignored_once_connected_witness:
  "readFrame ((newConn (idle_transport [[0, 9], [0, 4, 0, 0, 0, 1, 65]] EOF))\<lparr>connected := True\<rparr>)
     = (None, (newConn (idle_transport [[0, 4, 0, 0, 0, 1, 65]] EOF))\<lparr>connected := True\<rparr>)
   \<and> read ((newConn (idle_transport [[0, 9], [0, 4, 0, 0, 0, 1, 65]] EOF))\<lparr>connected := True\<rparr>)
     = read ((newConn (idle_transport [[0, 4, 0, 0, 0, 1, 65]] EOF))\<lparr>connected := True\<rparr>)"
proof -
  let ?c = "(newConn (idle_transport [[0, 9], [0, 4, 0, 0, 0, 1, 65]] EOF))\<lparr>connected := True\<rparr>"
  let ?t = "idle_transport [[0, 4, 0, 0, 0, 1, 65]] EOF"
  have rd: "conn_Read 2 (conn ?c) = (Inr [0, 9], ?t)"
    by (simp add: conn_Read_def newConn_def idle_transport_def)
  have tag: "Uint16 (pad 2 [0, 9]) \<notin> {subprotoTagSuccess, subprotoTagData, subprotoTagAck}"
    by (simp add: Uint16_def pad_def subprotoTagSuccess_def subprotoTagData_def
        subprotoTagAck_def)
  have c: "connected ?c" by simp
  have eq: "?c\<lparr>conn := ?t\<rparr> = (newConn ?t)\<lparr>connected := True\<rparr>"
    by (simp add: newConn_def)
  from unknown_tag_ignored_once_connected [OF rd tag] c show ?thesis
    unfolding eq by blast
qed

text \<open>
  C8. A connected tunnel receives a DATA frame that declares 5 payload bytes; the peer
  closes normally after 3 of them, so the transport's next \<open>Read\<close> returns \<open>io.EOF\<close>.
  \<open>copyNBuffer\<close> returns no error for the short copy (\<open>io.CopyBuffer\<close> treats \<open>io.EOF\<close> as the
  end of the copy), so \<open>readDataFrame\<close> and \<open>readFrame\<close> return no error, 3 bytes reach
  the receive pipe and \<open>recvNbUnacked\<close> grows by the declared 5. The end of the stream
  shows only at the next \<open>readFrame\<close>.
\<close>

theorem short_payload_counted_in_full:
  "(case readDataFrame (newConn (idle_transport [[0, 0, 0, 5, 1, 2, 3]] EOF)) of
      (err, c') \<Rightarrow> err = None \<and> recvPipe c' = [1, 2, 3] \<and> recvNbUnacked c' = 5)
   \<and> (case readFrame ((newConn (idle_transport [[0, 4, 0, 0, 0, 5, 1, 2, 3]] EOF))
          \<lparr>connected := True\<rparr>) of
      (err, c') \<Rightarrow>
        err = None \<and> recvPipe c' = [1, 2, 3] \<and> recvNbUnacked c' = 5
        \<and> inbound (conn c') = [] \<and> fst (readFrame c') = Some EOF)"
  by (simp add: readFrame_def readDataFrame_def copyNBuffer_def copyBuffer_loop.simps
      conn_Read_def recvWriter_Write_def newConn_def idle_transport_def Uint16_def Uint32_def
      pad_def subprotoTagSuccess_def subprotoTagAck_def subprotoTagData_def
      subprotoMaxFrameSize_def subprotoAckThreshold_def)

text \<open>
  C9. A \<open>Write\<close> with an empty buffer on a fresh, open tunnel: the writer loop takes the
  announcement \<open>0\<close>, writes no frame and returns no error, but \<open>sendWriter.Write\<close> of the
  empty buffer waits in the send pipe for a read that the writer loop does not make, so
  \<open>Write\<close> has not returned \<open>(0, nil)\<close>. A later \<open>Write\<close> of three bytes then has its
  announcement served from the empty buffer: the frame carries three zero bytes and the
  three bytes written stay in the pipe.
\<close>

theorem Write_empty_buffer_pending:
  "Conn_Write [] (newConn (idle_transport [] EOF))
     = (Pending, Ok, (newConn (idle_transport [] EOF))\<lparr>sendPipe := [[]]\<rparr>)
   \<and> (case Conn_Write [1, 2, 3] ((newConn (idle_transport [] EOF))\<lparr>sendPipe := [[]]\<rparr>) of
        (wr, st, c') \<Rightarrow>
          wr = Pending \<and> st = Ok \<and> outbound (conn c') = [[0, 4, 0, 0, 0, 3, 0, 0, 0]]
          \<and> sendPipe c' = [[1, 2, 3]])"
  by (simp add: Conn_Write_def write_pass_def writeFrame_def writeFrame_loop_0
      writeFrame_loop.simps newConn_def idle_transport_def sendReader_Read_def
      subprotoMaxFrameSize_def pad_def makeDataFrame_def MaxUint32_def PutUint16_def
      PutUint32_def subprotoTagData_def conn_Write_def)

text \<open>
  C10. The panic of \<open>makeDataFrame\<close> cannot happen in the writer loop: whatever the
  announcement and the state, \<open>writeFrame\<close>'s loop never ends in a panic, every frame it
  writes is \<open>makeDataFrame\<close> of a buffer of at most \<open>subprotoMaxFrameSize\<close> bytes, and on
  such a buffer \<open>makeDataFrame\<close> returns the tag \<open>0x0004\<close> in two bytes, the payload
  length as a 4-byte big-endian integer, then the payload.
\<close>

theorem makeDataFrame_panic_unreachable:
  "(\<forall>msg. fst (writeFrame_loop nb c) \<noteq> Panicked msg)
   \<and> (\<exists>fs. outbound (conn (snd (writeFrame_loop nb c))) = outbound (conn c) @ fs
         \<and> (\<forall>f\<in>set fs. \<exists>p. length p \<le> subprotoMaxFrameSize \<and> makeDataFrame p = Inr f))
   \<and> (length data \<le> subprotoMaxFrameSize \<longrightarrow>
         makeDataFrame data = Inr ([0, 4] @ PutUint32 (word_of_nat (length data)) @ data)
         \<and> length (PutUint32 (word_of_nat (length data))) = 4
         \<and> unat (Uint32 (PutUint32 (word_of_nat (length data)))) = length data)"
proof -
  have A: "\<forall>msg. fst (writeFrame_loop nb c) \<noteq> Panicked msg"
    using writeFrame_loop_frames [of nb c] by blast
  have B: "\<exists>fs. outbound (conn (snd (writeFrame_loop nb c))) = outbound (conn c) @ fs
         \<and> (\<forall>f\<in>set fs. \<exists>p. length p \<le> subprotoMaxFrameSize \<and> makeDataFrame p = Inr f)"
    using writeFrame_loop_frames [of nb c] by blast
  have C: "length data \<le> subprotoMaxFrameSize \<longrightarrow>
         makeDataFrame data = Inr ([0, 4] @ PutUint32 (word_of_nat (length data)) @ data)
         \<and> length (PutUint32 (word_of_nat (length data))) = 4
         \<and> unat (Uint32 (PutUint32 (word_of_nat (length data)))) = length data"
  proof
    assume le: "length data \<le> subprotoMaxFrameSize"
    then have "length data < 2 ^ 32"
      by (simp add: subprotoMaxFrameSize_def)
    then have "unat (Uint32 (PutUint32 (word_of_nat (length data)))) = length data"
      by (simp add: Uint32_PutUint32 unat_of_nat)
    moreover have "PutUint16 subprotoTagData = [0, 4]"
      by (simp add: PutUint16_def subprotoTagData_def)
    moreover have "length (PutUint32 (word_of_nat (length data))) = 4"
      by (simp add: PutUint32_def)
    ultimately show "makeDataFrame data = Inr ([0, 4] @ PutUint32 (word_of_nat (length data)) @ data)
         \<and> length (PutUint32 (word_of_nat (length data))) = 4
         \<and> unat (Uint32 (PutUint32 (word_of_nat (length data)))) = length data"
      using makeDataFrame_small [OF le] by simp
  qed
  from A B C show ?thesis by (intro conjI)
qed

theorem makeDataFrame_panic_unreachable_witness:
  "length [1, 2, 3 :: byte] \<le> subprotoMaxFrameSize
   \<and> makeDataFrame [1, 2, 3] = Inr [0, 4, 0, 0, 0, 3, 1, 2, 3]
   \<and> fst (writeFrame_loop 3 ((newConn (idle_transport [] EOF))\<lparr>sendPipe := [[1, 2, 3]]\<rparr>)) = Ok
   \<and> outbound (conn (snd (writeFrame_loop 3
        ((newConn (idle_transport [] EOF))\<lparr>sendPipe := [[1, 2, 3]]\<rparr>))))
      = [[0, 4, 0, 0, 0, 3, 1, 2, 3]]"
  using makeDataFrame_panic_unreachable
    [of 3 "(newConn (idle_transport [] EOF))\<lparr>sendPipe := [[1, 2, 3]]\<rparr>" "[1, 2, 3]"]
  by (simp add: writeFrame_loop.simps sendReader_Read_def newConn_def idle_transport_def
      subprotoMaxFrameSize_def pad_def makeDataFrame_def MaxUint32_def PutUint16_def
      PutUint32_def subprotoTagData_def conn_Write_def)

end
